theory Spec2Isabelle
  imports Main "HOL-Library.Sublist"
begin

section \<open>Strings and exceptions\<close>

text \<open>
  Python strings are modelled as \<open>string\<close>: a character is a code point below 256.
  Exceptions are values: a function that may raise returns \<open>exn + 'a\<close>, with \<open>Inl\<close> for
  the exception.
\<close>

datatype exn =
    EngineFailure string  \<comment> \<open>raised by \<open>translator.translate\<close>, with its description\<close>
  | TemplateError         \<comment> \<open>raised by \<open>re\<close> while compiling a replacement template\<close>
  | FileError string      \<comment> \<open>raised by \<open>polib.pofile\<close> or \<open>po.save\<close>, with the path\<close>

definition backslash :: char where
  "backslash = CHR 0x5C"

text \<open>
  Simple lowercase mapping of the code points below 256: \<open>A\<close>..\<open>Z\<close> and the capital
  letters \<open>0xC0\<close>..\<open>0xDE\<close> (without the multiplication sign \<open>0xD7\<close>) move up by 32. This
  is what \<open>re.IGNORECASE\<close> compares on \<open>str\<close> patterns.
\<close>

definition py_lower :: "char \<Rightarrow> char" where
  "py_lower c = (let n = (of_char c :: nat) in
     if (65 \<le> n \<and> n \<le> 90) \<or> (192 \<le> n \<and> n \<le> 222 \<and> n \<noteq> 215)
     then char_of (n + 32) else c)"

text \<open>\<open>str(n)\<close> for a natural number, as the f-string renders \<open>len(placeholders)\<close>.\<close>

definition digit_char :: "nat \<Rightarrow> char" where
  "digit_char d = ''0123456789'' ! (d mod 10)"

function show_nat :: "nat \<Rightarrow> string" where
  "show_nat n = (if n < 10 then [digit_char n]
                 else show_nat (n div 10) @ [digit_char (n mod 10)])"
  by pat_completeness auto
termination
  by (relation "measure id") auto

declare show_nat.simps [simp del]

section \<open>The placeholder pattern\<close>

text \<open>
  \<open>PLACEHOLDER_PATTERN = re.compile(r'(\{[^}]+\}|%\([^)]+\)[sd])')\<close>.

  A match attempt at the head of a string returns the matched text and the remainder.
  The greedy run \<open>[^}]+\<close> takes every character up to the first \<open>}\<close> (a negated class
  also takes newlines); giving characters back cannot help, since the character after a
  shorter run is not \<open>}\<close>. So the brace form matches exactly when the run is non-empty
  and a \<open>}\<close> follows it; the percent form likewise with \<open>)\<close> and then \<open>s\<close> or \<open>d\<close>.
\<close>

fun lit :: "char \<Rightarrow> string \<Rightarrow> string option" where
  "lit c [] = None"
| "lit c (x # xs) = (if x = c then Some xs else None)"

definition brace_form :: "string \<Rightarrow> (string \<times> string) option" where
  "brace_form s =
     (case lit CHR ''{'' s of
        None \<Rightarrow> None
      | Some r \<Rightarrow>
          (let body = takeWhile (\<lambda>x. x \<noteq> CHR ''}'') r;
               rest = dropWhile (\<lambda>x. x \<noteq> CHR ''}'') r
           in if body = [] then None
              else (case lit CHR ''}'' rest of
                      None \<Rightarrow> None
                    | Some rest' \<Rightarrow> Some (CHR ''{'' # body @ ''}'', rest'))))"

definition percent_form :: "string \<Rightarrow> (string \<times> string) option" where
  "percent_form s =
     (case lit CHR ''%'' s of
        None \<Rightarrow> None
      | Some r0 \<Rightarrow>
          (case lit CHR ''('' r0 of
             None \<Rightarrow> None
           | Some r \<Rightarrow>
               (let body = takeWhile (\<lambda>x. x \<noteq> CHR '')'') r;
                    rest = dropWhile (\<lambda>x. x \<noteq> CHR '')'') r
                in if body = [] then None
                   else (case lit CHR '')'' rest of
                           None \<Rightarrow> None
                         | Some [] \<Rightarrow> None
                         | Some (t # rest') \<Rightarrow>
                             if t = CHR ''s'' \<or> t = CHR ''d''
                             then Some (''%('' @ body @ [CHR '')'', t], rest')
                             else None))))"

text \<open>The alternation tries the brace form first.\<close>

definition PLACEHOLDER_PATTERN :: "string \<Rightarrow> (string \<times> string) option" where
  "PLACEHOLDER_PATTERN s =
     (case brace_form s of Some m \<Rightarrow> Some m | None \<Rightarrow> percent_form s)"

section \<open>protect\_placeholders\<close>

text \<open>
  The dictionary \<open>placeholders\<close> keeps insertion order, which \<open>restore_placeholders\<close>
  iterates: an association list. Assigning to an existing key keeps its position,
  assigning to a new key appends.
\<close>

type_synonym token_map = "(string \<times> string) list"

fun dict_set :: "token_map \<Rightarrow> string \<Rightarrow> string \<Rightarrow> token_map" where
  "dict_set [] k v = [(k, v)]"
| "dict_set ((k', v') # d) k v = (if k' = k then (k, v) # d else (k', v') # dict_set d k v)"

definition token :: "nat \<Rightarrow> string" where
  "token n = ''UNIQ_PH_'' @ show_nat n @ ''_UNIQ''"

text \<open>The callback \<open>repl\<close>: it returns the token and updates the dictionary.\<close>

definition repl :: "token_map \<Rightarrow> string \<Rightarrow> string \<times> token_map" where
  "repl placeholders m =
     (let tok = token (length placeholders)
      in (tok, dict_set placeholders tok m))"

lemma lit_shorter: "lit c s = Some r \<Longrightarrow> length r < length s"
  by (cases s) (auto split: if_splits)

lemma dropWhile_length_le: "length (dropWhile P xs) \<le> length xs"
  by (induction xs) auto

lemma brace_form_shorter:
  assumes "brace_form s = Some (m, r)"
  shows "length r < length s"
proof -
  from assms obtain a where a: "lit CHR ''{'' s = Some a"
    and r: "lit CHR ''}'' (dropWhile (\<lambda>x. x \<noteq> CHR ''}'') a) = Some r"
    by (auto simp: brace_form_def Let_def split: option.splits if_splits)
  have "length r < length (dropWhile (\<lambda>x. x \<noteq> CHR ''}'') a)"
    using r by (rule lit_shorter)
  also have "\<dots> \<le> length a" by (rule dropWhile_length_le)
  also have "\<dots> < length s" using a by (rule lit_shorter)
  finally show ?thesis .
qed

lemma percent_form_shorter:
  assumes "percent_form s = Some (m, r)"
  shows "length r < length s"
proof -
  from assms obtain a b t where a: "lit CHR ''%'' s = Some a"
    and b: "lit CHR ''('' a = Some b"
    and r: "lit CHR '')'' (dropWhile (\<lambda>x. x \<noteq> CHR '')'') b) = Some (t # r)"
    by (auto simp: percent_form_def Let_def split: option.splits if_splits list.splits)
  have "length (t # r) < length (dropWhile (\<lambda>x. x \<noteq> CHR '')'') b)"
    using r by (rule lit_shorter)
  also have "\<dots> \<le> length b" by (rule dropWhile_length_le)
  also have "\<dots> < length a" using b by (rule lit_shorter)
  also have "\<dots> < length s" using a by (rule lit_shorter)
  finally show ?thesis by simp
qed

lemma PLACEHOLDER_PATTERN_shorter:
  "PLACEHOLDER_PATTERN s = Some (m, r) \<Longrightarrow> length r < length s"
  unfolding PLACEHOLDER_PATTERN_def
  by (auto split: option.splits dest: brace_form_shorter percent_form_shorter)

text \<open>
  \<open>PLACEHOLDER_PATTERN.sub(repl, text)\<close>: scan from the left; where the pattern matches,
  emit what \<open>repl\<close> returns and go on after the match; elsewhere copy one character.
\<close>

function sub_repl :: "token_map \<Rightarrow> string \<Rightarrow> string \<times> token_map" where
  "sub_repl placeholders [] = ([], placeholders)"
| "sub_repl placeholders (c # cs) =
     (case PLACEHOLDER_PATTERN (c # cs) of
        Some (m, rest) \<Rightarrow>
          (let (tok, placeholders') = repl placeholders m;
               (out, placeholders'') = sub_repl placeholders' rest
           in (tok @ out, placeholders''))
      | None \<Rightarrow>
          (let (out, placeholders') = sub_repl placeholders cs
           in (c # out, placeholders')))"
  by pat_completeness auto
termination
  by (relation "measure (\<lambda>(d, s). length s)")
     (auto dest: PLACEHOLDER_PATTERN_shorter)

definition protect_placeholders :: "string \<Rightarrow> string \<times> token_map" where
  "protect_placeholders text = sub_repl [] text"

section \<open>Replacement templates\<close>

text \<open>
  \<open>regex.sub(original, text)\<close> is given the placeholder as a string, so \<open>re\<close> compiles
  it as a replacement template before it looks for any match (\<open>parse_template\<close> of
  CPython 3.12): the tokenizer pairs each backslash with the next character, and an
  escape is a control character, an octal character, a group reference or an error. The
  compiled pattern \<open>re.escape(token)\<close> has no groups, so the only valid reference is to
  group 0, the matched text. Which exception is raised (\<open>re.error\<close> or \<open>IndexError\<close>,
  both subclasses of \<open>Exception\<close>) is not distinguished: it is \<open>TemplateError\<close>.
\<close>

datatype ttok = Ch char | Esc char

fun tokenize :: "string \<Rightarrow> exn + ttok list" where
  "tokenize [] = Inr []"
| "tokenize [c] = (if c = backslash then Inl TemplateError else Inr [Ch c])"
| "tokenize (c # e # r) =
     (if c = backslash
      then (case tokenize r of Inl x \<Rightarrow> Inl x | Inr ts \<Rightarrow> Inr (Esc e # ts))
      else (case tokenize (e # r) of Inl x \<Rightarrow> Inl x | Inr ts \<Rightarrow> Inr (Ch c # ts)))"

datatype titem = TLit string | TGroup0

fun oct_val :: "ttok \<Rightarrow> nat option" where
  "oct_val (Ch c) = (if c \<in> set ''01234567'' then Some (of_char c - 48) else None)"
| "oct_val (Esc c) = None"

text \<open>\<open>getuntil(">")\<close>: the tokens of the group name and those after the terminator.\<close>

fun getuntil :: "ttok list \<Rightarrow> (ttok list \<times> ttok list) option" where
  "getuntil [] = None"
| "getuntil (t # ts) =
     (if t = Ch CHR ''>'' then Some ([], ts)
      else (case getuntil ts of None \<Rightarrow> None | Some (name, r) \<Rightarrow> Some (t # name, r)))"

definition ESCAPES :: "(char \<times> char) list" where
  "ESCAPES = [(CHR ''a'', CHR 0x07), (CHR ''b'', CHR 0x08), (CHR ''f'', CHR 0x0C),
              (CHR ''n'', CHR 0x0A), (CHR ''r'', CHR 0x0D), (CHR ''t'', CHR 0x09),
              (CHR ''v'', CHR 0x0B), (backslash, backslash)]"

definition ASCIILETTERS :: "char set" where
  "ASCIILETTERS = set ''abcdefghijklmnopqrstuvwxyzABCDEFGHIJKLMNOPQRSTUVWXYZ''"

text \<open>One escape \<open>\c\<close> followed by the tokens \<open>ts\<close>: the item it yields and what is left.\<close>

definition parse_escape :: "char \<Rightarrow> ttok list \<Rightarrow> exn + (titem \<times> ttok list)" where
  "parse_escape c ts =
     (if c = CHR ''g'' then
        (case ts of
           [] \<Rightarrow> Inl TemplateError
         | t # ts' \<Rightarrow>
             if t \<noteq> Ch CHR ''<'' then Inl TemplateError
             else (case getuntil ts' of
                     None \<Rightarrow> Inl TemplateError
                   | Some (name, r) \<Rightarrow>
                       if name \<noteq> [] \<and> (\<forall>t \<in> set name. t = Ch CHR ''0'')
                       then Inr (TGroup0, r) else Inl TemplateError))
      else if c = CHR ''0'' then
        (case ts of
           [] \<Rightarrow> Inr (TLit [CHR 0x00], ts)
         | t1 # r1 \<Rightarrow>
             (case oct_val t1 of
                None \<Rightarrow> Inr (TLit [CHR 0x00], ts)
              | Some a \<Rightarrow>
                  (case r1 of
                     [] \<Rightarrow> Inr (TLit [char_of a], r1)
                   | t2 # r2 \<Rightarrow>
                       (case oct_val t2 of
                          None \<Rightarrow> Inr (TLit [char_of a], r1)
                        | Some b \<Rightarrow> Inr (TLit [char_of (8 * a + b)], r2)))))
      else if c \<in> set ''123456789'' then
        (case ts of
           t2 # t3 # r \<Rightarrow>
             (case (oct_val (Ch c), oct_val t2, oct_val t3) of
                (Some a, Some b, Some d) \<Rightarrow>
                  if 64 * a + 8 * b + d > 255 then Inl TemplateError
                  else Inr (TLit [char_of (64 * a + 8 * b + d)], r)
              | _ \<Rightarrow> Inl TemplateError)
         | _ \<Rightarrow> Inl TemplateError)
      else (case map_of ESCAPES c of
              Some e \<Rightarrow> Inr (TLit [e], ts)
            | None \<Rightarrow>
                if c \<in> ASCIILETTERS then Inl TemplateError
                else Inr (TLit [backslash, c], ts)))"

lemma getuntil_shorter: "getuntil ts = Some (name, r) \<Longrightarrow> length r < length ts"
  by (induction ts arbitrary: name) (auto split: if_splits option.splits)

lemma parse_escape_shorter:
  "parse_escape c ts = Inr (item, r) \<Longrightarrow> length r \<le> length ts"
  unfolding parse_escape_def
  by (auto split: if_splits list.splits option.splits dest: getuntil_shorter)

function parse_items :: "ttok list \<Rightarrow> exn + titem list" where
  "parse_items [] = Inr []"
| "parse_items (Ch c # ts) =
     (case parse_items ts of Inl x \<Rightarrow> Inl x | Inr items \<Rightarrow> Inr (TLit [c] # items))"
| "parse_items (Esc c # ts) =
     (case parse_escape c ts of
        Inl x \<Rightarrow> Inl x
      | Inr (item, r) \<Rightarrow>
          (case parse_items r of Inl x \<Rightarrow> Inl x | Inr items \<Rightarrow> Inr (item # items)))"
  by pat_completeness auto
termination
  by (relation "measure length") (auto dest: parse_escape_shorter)

definition parse_template :: "string \<Rightarrow> exn + titem list" where
  "parse_template source =
     (case tokenize source of Inl x \<Rightarrow> Inl x | Inr ts \<Rightarrow> parse_items ts)"

text \<open>Expanding a compiled template for one match \<open>m\<close>.\<close>

fun expand :: "titem list \<Rightarrow> string \<Rightarrow> string" where
  "expand [] m = []"
| "expand (TLit s # items) m = s @ expand items m"
| "expand (TGroup0 # items) m = m @ expand items m"

section \<open>restore\_placeholders\<close>

text \<open>
  \<open>re.compile(re.escape(token), re.IGNORECASE)\<close> matches the token literally, each
  character compared after lowercasing.
\<close>

definition ci_prefix :: "string \<Rightarrow> string \<Rightarrow> bool" where
  "ci_prefix t s \<longleftrightarrow> prefix (map py_lower t) (map py_lower s)"

text \<open>
  The scan of \<open>regex.sub\<close> for a non-empty pattern: leftmost matches, not overlapping,
  each replaced by the expansion of the template.
\<close>

function sub_scan :: "string \<Rightarrow> titem list \<Rightarrow> string \<Rightarrow> string" where
  "sub_scan t tpl [] = []"
| "sub_scan t tpl (c # cs) =
     (if t \<noteq> [] \<and> ci_prefix t (c # cs)
      then expand tpl (take (length t) (c # cs)) @ sub_scan t tpl (drop (length t) (c # cs))
      else c # sub_scan t tpl cs)"
  by pat_completeness auto
termination
  by (relation "measure (\<lambda>(t, tpl, s). length s)") (auto simp: neq_Nil_conv)

text \<open>
  An empty pattern matches the empty string at every position, also at the end
  (\<open>re.sub('', 'X', 'abc') = 'XaXbXcX'\<close>).
\<close>

definition regex_sub :: "string \<Rightarrow> string \<Rightarrow> string \<Rightarrow> exn + string" where
  "regex_sub t original text =
     (case parse_template original of
        Inl x \<Rightarrow> Inl x
      | Inr tpl \<Rightarrow>
          if t = [] then Inr (expand tpl [] @ concat (map (\<lambda>c. c # expand tpl []) text))
          else Inr (sub_scan t tpl text))"

fun restore_placeholders :: "string \<Rightarrow> token_map \<Rightarrow> exn + string" where
  "restore_placeholders text [] = Inr text"
| "restore_placeholders text ((tok, original) # placeholders) =
     (case regex_sub tok original text of
        Inl x \<Rightarrow> Inl x
      | Inr text' \<Rightarrow> restore_placeholders text' placeholders)"

section \<open>translate\_text\<close>

text \<open>
  The translation engine is an external service: a call takes the state of the engine and
  returns the translated text or raises, and leaves a new state.
\<close>

type_synonym 's translator = "'s \<Rightarrow> string \<Rightarrow> string \<Rightarrow> string \<Rightarrow> (exn + string) \<times> 's"

definition translate_text ::
  "'s translator \<Rightarrow> 's \<Rightarrow> string \<Rightarrow> string \<Rightarrow> string \<Rightarrow> (exn + string) \<times> 's" where
  "translate_text translator st text src_lang dest_lang =
     (let (safe_text, placeholders) = protect_placeholders text;
          (translation, st') = translator st safe_text src_lang dest_lang
      in case translation of
           Inl x \<Rightarrow> (Inl x, st')
         | Inr translated_text \<Rightarrow> (restore_placeholders translated_text placeholders, st'))"

section \<open>translate\_po\<close>

text \<open>
  Modelled from the spec: the entry type of the catalog library is not part of the
  repository. An entry has a source string, a target string and a set of string flags, and
  exposes the fuzzy status also as a boolean attribute.
\<close>

record entry =
  msgid :: string
  msgstr :: string
  flags :: "string set"
  fuzzy :: bool

text \<open>
  Modelled from the spec: loading and saving belong to the catalog library. A path holds
  a catalog or nothing; loading a missing catalog and saving to an unwritable path raise.
\<close>

record filesys =
  files :: "string \<rightharpoonup> entry list"
  read_only :: "string set"

definition pofile :: "filesys \<Rightarrow> string \<Rightarrow> exn + entry list" where
  "pofile fs path = (case files fs path of None \<Rightarrow> Inl (FileError path) | Some po \<Rightarrow> Inr po)"

definition save :: "filesys \<Rightarrow> string \<Rightarrow> entry list \<Rightarrow> exn + filesys" where
  "save fs path po =
     (if path \<in> read_only fs then Inl (FileError path)
      else Inr (fs\<lparr>files := (files fs)(path \<mapsto> po)\<rparr>))"

text \<open>\<open>str.strip()\<close> removes the whitespace at both ends (code points below 256).\<close>

definition is_space :: "char \<Rightarrow> bool" where
  "is_space c = (let n = (of_char c :: nat) in
     (9 \<le> n \<and> n \<le> 13) \<or> (28 \<le> n \<and> n \<le> 32) \<or> n = 133 \<or> n = 160)"

definition strip :: "string \<Rightarrow> string" where
  "strip s = rev (dropWhile is_space (rev (dropWhile is_space s)))"

text \<open>The lines the run prints, one constructor for each \<open>print\<close>.\<close>

datatype line =
    Translated string string
  | ErrorTranslating string exn
  | Saved string

text \<open>The body of the loop, for one entry: the entry, the lines printed, the engine.\<close>

definition process_entry ::
  "'s translator \<Rightarrow> string \<Rightarrow> string \<Rightarrow> 's \<Rightarrow> entry \<Rightarrow> entry \<times> line list \<times> 's" where
  "process_entry translator src_lang dest_lang st entry =
     (if msgid entry \<noteq> [] \<and> strip (msgstr entry) = [] then
        (case translate_text translator st (msgid entry) src_lang dest_lang of
           (Inr translated, st') \<Rightarrow>
             (entry\<lparr>msgstr := translated,
                    fuzzy := False,
                    flags := (if ''fuzzy'' \<in> flags entry then flags entry - {''fuzzy''}
                              else flags entry)\<rparr>,
              [Translated (msgid entry) translated], st')
         | (Inl e, st') \<Rightarrow> (entry, [ErrorTranslating (msgid entry) e], st'))
      else (entry, [], st))"

fun for_entries ::
  "'s translator \<Rightarrow> string \<Rightarrow> string \<Rightarrow> 's \<Rightarrow> entry list \<Rightarrow> entry list \<times> line list \<times> 's" where
  "for_entries translator src_lang dest_lang st [] = ([], [], st)"
| "for_entries translator src_lang dest_lang st (entry # po) =
     (let (entry', out, st') = process_entry translator src_lang dest_lang st entry;
          (po', out', st'') = for_entries translator src_lang dest_lang st' po
      in (entry' # po', out @ out', st''))"

text \<open>
  The outcome of a run: the exception that ended it, if any, the files, the lines printed
  and the engine.
\<close>

record 's run =
  raised :: "exn option"
  disk :: filesys
  printed :: "line list"
  engine :: 's

definition translate_po ::
  "'s translator \<Rightarrow> 's \<Rightarrow> filesys \<Rightarrow> string \<Rightarrow> string \<Rightarrow> string \<Rightarrow> string \<Rightarrow> 's run" where
  "translate_po translator st fs input_file output_file src_lang dest_lang =
     (case pofile fs input_file of
        Inl x \<Rightarrow> \<lparr>raised = Some x, disk = fs, printed = [], engine = st\<rparr>
      | Inr po \<Rightarrow>
          (let (po', out, st') = for_entries translator src_lang dest_lang st po
           in case save fs output_file po' of
                Inl x \<Rightarrow> \<lparr>raised = Some x, disk = fs, printed = out, engine = st'\<rparr>
              | Inr fs' \<Rightarrow>
                  \<lparr>raised = None, disk = fs', printed = out @ [Saved output_file],
                   engine = st'\<rparr>))"

text \<open>The engine as the loop finds it when it reaches entry \<open>i\<close>.\<close>

definition engine_at ::
  "'s translator \<Rightarrow> string \<Rightarrow> string \<Rightarrow> 's \<Rightarrow> entry list \<Rightarrow> nat \<Rightarrow> 's" where
  "engine_at translator src_lang dest_lang st po i =
     snd (snd (for_entries translator src_lang dest_lang st (take i po)))"

section \<open>Notions used to state the properties\<close>

text \<open>
  The matches of the pattern in a text, as \<open>PLACEHOLDER_PATTERN.finditer\<close> finds them: the
  text is cut into pairs of a literal stretch and the match that follows it, and the
  literal stretch after the last match. \<open>join_orig\<close> puts the text together again,
  \<open>join_tokens f n\<close> puts it together with the token numbered from \<open>n\<close>, passed through
  \<open>f\<close>, in the place of each match, and \<open>number_from n\<close> pairs the matches with these
  tokens. \<open>findall\<close> lists the matches; \<open>recased f\<close> is the safe text with \<open>f\<close> applied
  to each of its tokens.
\<close>

function pieces :: "string \<Rightarrow> (string \<times> string) list \<times> string" where
  "pieces [] = ([], [])"
| "pieces (c # cs) =
     (case PLACEHOLDER_PATTERN (c # cs) of
        Some (m, rest) \<Rightarrow> (let (ps, l) = pieces rest in (([], m) # ps, l))
      | None \<Rightarrow>
          (case pieces cs of
             ([], l) \<Rightarrow> ([], c # l)
           | ((l0, m) # ps, l) \<Rightarrow> ((c # l0, m) # ps, l)))"
  by pat_completeness auto

termination
  by (relation "measure length") (auto dest: PLACEHOLDER_PATTERN_shorter)

fun join_orig :: "(string \<times> string) list \<Rightarrow> string \<Rightarrow> string" where
  "join_orig [] l = l"
| "join_orig ((l0, m) # ps) l = l0 @ m @ join_orig ps l"

fun join_tokens :: "(string \<Rightarrow> string) \<Rightarrow> nat \<Rightarrow> (string \<times> string) list \<Rightarrow> string \<Rightarrow> string" where
  "join_tokens f n [] l = l"
| "join_tokens f n ((l0, m) # ps) l = l0 @ f (token n) @ join_tokens f (Suc n) ps l"

fun number_from :: "nat \<Rightarrow> string list \<Rightarrow> token_map" where
  "number_from n [] = []"
| "number_from n (m # ms) = (token n, m) # number_from (Suc n) ms"

definition findall :: "string \<Rightarrow> string list" where
  "findall text = map snd (fst (pieces text))"

definition recased :: "(string \<Rightarrow> string) \<Rightarrow> string \<Rightarrow> string" where
  "recased f text = join_tokens f 0 (fst (pieces text)) (snd (pieces text))"

text \<open>
  \<open>has_match\<close>: the pattern matches somewhere in the text. \<open>ci_infix t s\<close>: the string
  \<open>t\<close> occurs in \<open>s\<close> when case is ignored.
\<close>

fun has_match :: "string \<Rightarrow> bool" where
  "has_match [] = False"
| "has_match (c # cs) = (PLACEHOLDER_PATTERN (c # cs) \<noteq> None \<or> has_match cs)"

fun ci_infix :: "string \<Rightarrow> string \<Rightarrow> bool" where
  "ci_infix t [] = ci_prefix t []"
| "ci_infix t (c # cs) = (ci_prefix t (c # cs) \<or> ci_infix t cs)"

text \<open>
  \<open>str.upper\<close>, \<open>str.lower\<close> and \<open>str.title\<close>, as they act on ASCII text such as a
  token: \<open>title\<close> puts a capital at the start of each run of letters and lowers the
  rest.
\<close>

definition ascii_upper :: "char \<Rightarrow> char" where
  "ascii_upper c = (let n = (of_char c :: nat) in
     if 97 \<le> n \<and> n \<le> 122 then char_of (n - 32) else c)"

definition is_ascii_letter :: "char \<Rightarrow> bool" where
  "is_ascii_letter c = (let n = (of_char c :: nat) in
     (65 \<le> n \<and> n \<le> 90) \<or> (97 \<le> n \<and> n \<le> 122))"

definition str_upper :: "string \<Rightarrow> string" where
  "str_upper s = map ascii_upper s"

definition str_lower :: "string \<Rightarrow> string" where
  "str_lower s = map py_lower s"

fun title_from :: "bool \<Rightarrow> string \<Rightarrow> string" where
  "title_from previous_is_cased [] = []"
| "title_from previous_is_cased (c # cs) =
     (if previous_is_cased then py_lower c else ascii_upper c) # title_from (is_ascii_letter c) cs"

definition str_title :: "string \<Rightarrow> string" where
  "str_title s = title_from False s"

text \<open>
  For the proofs: reading a decimal numeral back, a string that is empty or begins with
  \<open>UNIQ\<close> in any case, and the literal stretches of a cut text being free of \<open>_PH_\<close>.
\<close>

definition read_nat :: "string \<Rightarrow> nat" where
  "read_nat s = foldl (\<lambda>a c. 10 * a + (of_char c - 48)) 0 s"

definition tokenish :: "string \<Rightarrow> bool" where
  "tokenish B \<longleftrightarrow> B = [] \<or> ci_prefix ''UNIQ'' B"

definition lits_clean :: "(string \<times> string) list \<Rightarrow> string \<Rightarrow> bool" where
  "lits_clean ps l \<longleftrightarrow> (\<forall>p \<in> set ps. \<not> ci_infix ''_PH_'' (fst p)) \<and> \<not> ci_infix ''_PH_'' l"

section \<open>Sample inputs\<close>

text \<open>
  Two engines for concrete runs: one returns the text it is given, one always raises. Both
  count their calls. A disk with one catalog at \<open>in.po\<close>, and two fuzzy entries: one
  already translated, one not.
\<close>

definition echo_engine :: "nat translator" where
  "echo_engine st text src_lang dest_lang = (Inr text, Suc st)"

definition failing_engine :: "nat translator" where
  "failing_engine st text src_lang dest_lang = (Inl (EngineFailure ''timeout''), Suc st)"

definition sample_disk :: "entry list \<Rightarrow> filesys" where
  "sample_disk po = \<lparr>files = [''in.po'' \<mapsto> po], read_only = {}\<rparr>"

definition fuzzy_done :: entry where
  "fuzzy_done = \<lparr>msgid = ''Hi'', msgstr = ''Hola'', flags = {''fuzzy''}, fuzzy = True\<rparr>"

definition fuzzy_todo :: entry where
  "fuzzy_todo = \<lparr>msgid = ''Bye {name}'', msgstr = [], flags = {''fuzzy''}, fuzzy = True\<rparr>"

section \<open>Evaluation and auxiliary lemmas\<close>

lemmas match_eval = PLACEHOLDER_PATTERN_def brace_form_def percent_form_def Let_def
lemmas protect_eval = protect_placeholders_def match_eval repl_def token_def show_nat.simps digit_char_def
lemmas lower_eval = py_lower_def char_of_def bit_0 bit_Suc Let_def
lemmas restore_eval = regex_sub_def parse_template_def backslash_def ci_prefix_def lower_eval
lemmas po_eval = translate_po_def pofile_def save_def sample_disk_def process_entry_def
  translate_text_def strip_def is_space_def engine_at_def

subsection \<open>Placeholders\<close>

text \<open>
  The way to the round trip: \<open>protect_placeholders\<close> yields the cut text with tokens
  in the place of the matches (\<open>protect_pieces\<close>). Every occurrence of a token, in any
  case, has \<open>_PH_\<close> after its first four characters; in a safe text whose literal
  stretches are free of \<open>_PH_\<close> that can only be inside a token, at the same offset, so
  the scan for token \<open>k\<close> passes over literal stretches (\<open>sub_scan_lit\<close>) and other
  tokens (\<open>sub_scan_token_other\<close>) and replaces token \<open>k\<close> alone
  (\<open>sub_scan_token_same\<close>). A placeholder without a backslash is a template that expands
  to itself (\<open>regex_sub_plain\<close>).
\<close>

lemma digit_char_code: "n < 10 \<Longrightarrow> of_char (digit_char n) = 48 + n"
proof -
  assume "n < 10"
  then have "n \<in> {0, 1, 2, 3, 4, 5, 6, 7, 8, 9}" by auto
  then show ?thesis by (auto simp: digit_char_def)
qed

lemma digit_char_in: "digit_char n \<in> set ''0123456789''"
proof -
  define k where "k = n mod 10"
  have "k < 10" by (simp add: k_def)
  then have "k \<in> {0, 1, 2, 3, 4, 5, 6, 7, 8, 9}" by auto
  then have "''0123456789'' ! k \<in> set ''0123456789''" by auto
  then show ?thesis by (simp add: digit_char_def k_def)
qed

lemma show_nat_digits: "set (show_nat n) \<subseteq> set ''0123456789''"
proof (induction n rule: show_nat.induct)
  case (1 n)
  show ?case
  proof (cases "n < 10")
    case True
    then show ?thesis using digit_char_in [of n] by (subst show_nat.simps) simp
  next
    case False
    then show ?thesis
      using 1 digit_char_in [of "n mod 10"] by (subst show_nat.simps) simp
  qed
qed

lemma read_show_nat: "read_nat (show_nat n) = n"
proof (induction n rule: show_nat.induct)
  case (1 n)
  show ?case
  proof (cases "n < 10")
    case True
    then show ?thesis
      by (subst show_nat.simps) (simp add: read_nat_def digit_char_code)
  next
    case False
    have "n mod 10 < 10" by simp
    then have d: "of_char (digit_char (n mod 10)) = 48 + n mod 10"
      using digit_char_code by blast
    from False 1 have "read_nat (show_nat (n div 10)) = n div 10" by simp
    then show ?thesis using False d
      by (subst show_nat.simps) (simp add: read_nat_def)
  qed
qed

lemma show_nat_inj: "show_nat m = show_nat n \<Longrightarrow> m = n"
  by (metis read_show_nat)

lemma token_inj: "token m = token n \<Longrightarrow> m = n"
  by (simp add: token_def show_nat_inj)

lemma lit_Some_iff: "lit c s = Some r \<longleftrightarrow> s = c # r"
  by (cases s) auto

lemma brace_form_split:
  assumes "brace_form s = Some (m, r)"
  shows "s = m @ r"
proof -
  from assms obtain a where s: "s = CHR ''{'' # a"
    and d: "dropWhile (\<lambda>x. x \<noteq> CHR ''}'') a = CHR ''}'' # r"
    and m: "m = CHR ''{'' # takeWhile (\<lambda>x. x \<noteq> CHR ''}'') a @ ''}''"
    by (auto simp: brace_form_def Let_def lit_Some_iff split: option.splits if_splits)
  have "a = takeWhile (\<lambda>x. x \<noteq> CHR ''}'') a @ dropWhile (\<lambda>x. x \<noteq> CHR ''}'') a"
    by simp
  then have "a = takeWhile (\<lambda>x. x \<noteq> CHR ''}'') a @ CHR ''}'' # r"
    using d by simp
  then show ?thesis using s m by simp
qed

lemma percent_form_split:
  assumes "percent_form s = Some (m, r)"
  shows "s = m @ r"
proof -
  from assms obtain a t where s: "s = CHR ''%'' # CHR ''('' # a"
    and d: "dropWhile (\<lambda>x. x \<noteq> CHR '')'') a = CHR '')'' # t # r"
    and m: "m = ''%('' @ takeWhile (\<lambda>x. x \<noteq> CHR '')'') a @ [CHR '')'', t]"
    by (auto simp: percent_form_def Let_def lit_Some_iff
        split: option.splits if_splits list.splits)
  have "a = takeWhile (\<lambda>x. x \<noteq> CHR '')'') a @ dropWhile (\<lambda>x. x \<noteq> CHR '')'') a"
    by simp
  then have "a = takeWhile (\<lambda>x. x \<noteq> CHR '')'') a @ CHR '')'' # t # r"
    using d by simp
  then show ?thesis using s m by simp
qed

lemma PLACEHOLDER_PATTERN_split: "PLACEHOLDER_PATTERN s = Some (m, r) \<Longrightarrow> s = m @ r"
  by (auto simp: PLACEHOLDER_PATTERN_def split: option.splits
      dest: brace_form_split percent_form_split)

lemma pieces_Some:
  "PLACEHOLDER_PATTERN (c # cs) = Some (m, rest) \<Longrightarrow>
   pieces (c # cs) = (([], m) # fst (pieces rest), snd (pieces rest))"
  by (simp split: prod.splits)

lemma pieces_None:
  "PLACEHOLDER_PATTERN (c # cs) = None \<Longrightarrow>
   pieces (c # cs) =
     (case fst (pieces cs) of
        [] \<Rightarrow> ([], c # snd (pieces cs))
      | (l0, m) # ps \<Rightarrow> ((c # l0, m) # ps, snd (pieces cs)))"
  by (simp split: prod.splits list.splits)

lemma join_orig_pieces: "join_orig (fst (pieces s)) (snd (pieces s)) = s"
proof (induction s rule: pieces.induct)
  case 1
  then show ?case by simp
next
  case (2 c cs)
  show ?case
  proof (cases "PLACEHOLDER_PATTERN (c # cs)")
    case None
    from 2(1) [OF None] show ?thesis
      by (auto simp add: pieces_None [OF None] simp del: pieces.simps split: list.splits)
  next
    case (Some a)
    obtain m rest where a: "a = (m, rest)" by (cases a)
    have "join_orig (fst (pieces rest)) (snd (pieces rest)) = rest"
      using 2(2) [OF Some [unfolded a] refl] .
    moreover have "c # cs = m @ rest"
      using PLACEHOLDER_PATTERN_split [OF Some [unfolded a]] .
    ultimately show ?thesis
      unfolding pieces_Some [OF Some [unfolded a]] by simp
  qed
qed

lemma lower_PH: "map py_lower ''_PH_'' = ''_ph_''"
  by (simp add: lower_eval)

lemma lower_UNIQ: "map py_lower ''UNIQ'' = ''uniq''"
  by (simp add: lower_eval)

lemma lower_UNIQ_PH: "map py_lower ''UNIQ_PH_'' = ''uniq_ph_''"
  by (simp add: lower_eval)

lemma lower_UNIQ_tail: "map py_lower ''_UNIQ'' = ''_uniq''"
  by (simp add: lower_eval)

lemma py_lower_digit: "c \<in> set ''0123456789'' \<Longrightarrow> py_lower c = c"
  by (auto simp: py_lower_def)

lemma lower_show_nat: "map py_lower (show_nat n) = show_nat n"
  using show_nat_digits [of n] by (intro map_idI py_lower_digit) blast

lemma lower_token: "map py_lower (token n) = ''uniq_ph_'' @ show_nat n @ ''_uniq''"
  unfolding token_def map_append lower_UNIQ_PH lower_UNIQ_tail lower_show_nat ..

lemma token_not_Nil: "token n \<noteq> []"
  by (simp add: token_def)

lemma ci_prefix_append: "ci_prefix t A \<Longrightarrow> ci_prefix t (A @ B)"
  by (simp add: ci_prefix_def prefix_prefix)

lemma ci_prefix_Nil: "ci_prefix t [] \<longleftrightarrow> t = []"
  by (simp add: ci_prefix_def)

lemma ci_infix_Nil_left: "ci_infix [] s"
  by (cases s) (simp_all add: ci_prefix_def)

lemma ci_infix_appendI1: "ci_infix t A \<Longrightarrow> ci_infix t (A @ B)"
proof (induction A)
  case Nil
  then show ?case by (simp add: ci_prefix_Nil ci_infix_Nil_left)
next
  case (Cons a A)
  then show ?case using ci_prefix_append [of t "a # A" B] by auto
qed

lemma ci_infix_appendI2: "ci_infix t B \<Longrightarrow> ci_infix t (A @ B)"
  by (induction A) auto

lemma ci_prefix_infix: "ci_prefix t s \<Longrightarrow> ci_infix t s"
  by (cases s) auto

lemma ci_prefix_PH_iff:
  "ci_prefix ''_PH_'' Z \<longleftrightarrow>
     (\<exists>a b c d Z'. Z = a # b # c # d # Z' \<and> py_lower a = CHR ''_'' \<and> py_lower b = CHR ''p''
        \<and> py_lower c = CHR ''h'' \<and> py_lower d = CHR ''_'')"
  unfolding ci_prefix_def lower_PH
  by (auto simp: prefix_def map_eq_Cons_conv)

lemma ci_prefix_UNIQ_iff:
  "ci_prefix ''UNIQ'' Z \<longleftrightarrow>
     (\<exists>a b c d Z'. Z = a # b # c # d # Z' \<and> py_lower a = CHR ''u'' \<and> py_lower b = CHR ''n''
        \<and> py_lower c = CHR ''i'' \<and> py_lower d = CHR ''q'')"
  unfolding ci_prefix_def lower_UNIQ
  by (auto simp: prefix_def map_eq_Cons_conv)

lemma tokenish_not_ph: "tokenish B \<Longrightarrow> \<not> ci_prefix ''_PH_'' B"
  by (cases B) (auto simp: tokenish_def ci_prefix_PH_iff ci_prefix_UNIQ_iff)

lemma straddle_ph:
  assumes "\<not> ci_infix ''_PH_'' A" and "tokenish B" and "A \<noteq> []"
  shows "\<not> ci_prefix ''_PH_'' (A @ B)"
proof
  assume p: "ci_prefix ''_PH_'' (A @ B)"
  from assms(3) obtain x A1 where A: "A = x # A1" by (cases A) auto
  show False
  proof (cases A1)
    case Nil
    with p A assms(2) show False
      by (cases B) (auto simp: tokenish_def ci_prefix_PH_iff ci_prefix_UNIQ_iff)
  next
    case (Cons y A2)
    note A1 = this
    show False
    proof (cases A2)
      case Nil
      with p A A1 assms(2) show False
        by (cases B) (auto simp: tokenish_def ci_prefix_PH_iff ci_prefix_UNIQ_iff)
    next
      case (Cons z A3)
      note A2 = this
      show False
      proof (cases A3)
        case Nil
        with p A A1 A2 assms(2) show False
          by (cases B) (auto simp: tokenish_def ci_prefix_PH_iff ci_prefix_UNIQ_iff)
      next
        case (Cons w A4)
        with p A A1 A2 have "ci_prefix ''_PH_'' A"
          by (simp add: ci_prefix_PH_iff)
        with assms(1) show False by (simp add: ci_prefix_infix)
      qed
    qed
  qed
qed

lemma token_prefix_shape:
  assumes "ci_prefix (token k) Z"
  obtains a b c d Z' where "Z = a # b # c # d # Z'"
    and "py_lower a = CHR ''u''" and "py_lower b = CHR ''n''"
    and "py_lower c = CHR ''i''" and "py_lower d = CHR ''q''"
    and "ci_prefix ''_PH_'' Z'"
proof -
  from assms have "prefix (''uniq_ph_'' @ show_nat k @ ''_uniq'') (map py_lower Z)"
    unfolding ci_prefix_def lower_token .
  then obtain zs where "map py_lower Z = ''uniq_ph_'' @ zs"
    by (auto simp: prefix_def)
  then obtain a b c d Z' where "Z = a # b # c # d # Z'"
    and "py_lower a = CHR ''u''" and "py_lower b = CHR ''n''"
    and "py_lower c = CHR ''i''" and "py_lower d = CHR ''q''"
    and "ci_prefix ''_PH_'' Z'"
    by (auto simp: map_eq_Cons_conv ci_prefix_PH_iff)
  then show ?thesis using that by blast
qed

lemma no_match_in_lit:
  assumes "\<not> ci_infix ''_PH_'' A" and "tokenish B" and "A \<noteq> []"
  shows "\<not> ci_prefix (token k) (A @ B)"
proof
  assume "ci_prefix (token k) (A @ B)"
  then obtain a b c d Z' where Z: "A @ B = a # b # c # d # Z'"
    and u: "py_lower a = CHR ''u''" "py_lower b = CHR ''n''"
      "py_lower c = CHR ''i''" "py_lower d = CHR ''q''"
    and ph: "ci_prefix ''_PH_'' Z'"
    by (rule token_prefix_shape)
  from assms(3) obtain x A1 where A: "A = x # A1" by (cases A) auto
  show False
  proof (cases A1)
    case Nil
    with Z u A assms(2) show False
      by (auto simp: tokenish_def ci_prefix_UNIQ_iff)
  next
    case (Cons y A2)
    note A1 = this
    show False
    proof (cases A2)
      case Nil
      with Z u A A1 assms(2) show False
        by (auto simp: tokenish_def ci_prefix_UNIQ_iff)
    next
      case (Cons z A3)
      note A2 = this
      show False
      proof (cases A3)
        case Nil
        with Z u A A1 A2 assms(2) show False
          by (auto simp: tokenish_def ci_prefix_UNIQ_iff)
      next
        case (Cons w A4)
        note A3 = this
        show False
        proof (cases A4)
          case Nil
          with Z A A1 A2 A3 have "Z' = B" by simp
          with ph assms(2) show False by (simp add: tokenish_not_ph)
        next
          case (Cons v A5)
          with Z A A1 A2 A3 have Z': "Z' = A4 @ B" by simp
          have "ci_infix ''_PH_'' A4 \<Longrightarrow> ci_infix ''_PH_'' A"
            using A A1 A2 A3 by simp
          with assms(1) have "\<not> ci_infix ''_PH_'' A4" by blast
          moreover have "A4 \<noteq> []" using Cons by simp
          ultimately show False using straddle_ph [OF _ assms(2)] ph Z' by blast
        qed
      qed
    qed
  qed
qed

lemma sub_scan_skip:
  "\<not> ci_prefix t (c # cs) \<Longrightarrow> sub_scan t tpl (c # cs) = c # sub_scan t tpl cs"
  by simp

lemma sub_scan_match:
  assumes "t \<noteq> []" and "ci_prefix t s"
  shows "sub_scan t tpl s = expand tpl (take (length t) s) @ sub_scan t tpl (drop (length t) s)"
proof (cases s)
  case Nil
  with assms show ?thesis by (simp add: ci_prefix_Nil)
next
  case (Cons c cs)
  with assms show ?thesis by simp
qed

lemma sub_scan_lit:
  "\<not> ci_infix ''_PH_'' A \<Longrightarrow> tokenish B \<Longrightarrow>
   sub_scan (token k) tpl (A @ B) = A @ sub_scan (token k) tpl B"
proof (induction A)
  case Nil
  then show ?case by simp
next
  case (Cons a A)
  have "\<not> ci_prefix (token k) ((a # A) @ B)"
    using no_match_in_lit [OF Cons.prems(1) Cons.prems(2)] by simp
  moreover have "\<not> ci_infix ''_PH_'' A" using Cons.prems(1) by simp
  ultimately show ?case using Cons.IH Cons.prems(2) by (simp del: sub_scan.simps add: sub_scan_skip)
qed

lemma digits_prefix:
  assumes "u \<notin> set dk" and "u \<notin> set dj" and "prefix (dk @ u # x) (dj @ u # y)"
  shows "dk = dj"
  using assms
proof (induction dk arbitrary: dj)
  case Nil
  then show ?case by (cases dj) auto
next
  case (Cons a dk)
  then show ?case by (cases dj) auto
qed

lemma underscore_not_digit: "CHR ''_'' \<notin> set (show_nat n)"
  using show_nat_digits [of n] by auto

lemma token_head_same:
  assumes "ci_prefix (token k) (U @ R)" and "map py_lower U = map py_lower (token j)"
  shows "k = j"
proof -
  have "prefix (''uniq_ph_'' @ show_nat k @ ''_uniq'')
          ((''uniq_ph_'' @ show_nat j @ ''_uniq'') @ map py_lower R)"
    using assms unfolding ci_prefix_def lower_token by simp
  then have "prefix (show_nat k @ CHR ''_'' # ''uniq'')
               (show_nat j @ CHR ''_'' # (''uniq'' @ map py_lower R))"
    by simp
  then have "show_nat k = show_nat j"
    using digits_prefix [OF underscore_not_digit underscore_not_digit] by blast
  then show ?thesis by (rule show_nat_inj)
qed

lemma sub_scan_token_same:
  assumes "map py_lower U = map py_lower (token k)"
  shows "sub_scan (token k) tpl (U @ R) = expand tpl U @ sub_scan (token k) tpl R"
proof -
  have len: "length U = length (token k)"
    using assms by (metis length_map)
  have "ci_prefix (token k) (U @ R)"
    unfolding ci_prefix_def using assms by simp
  from sub_scan_match [OF token_not_Nil this, of tpl] len show ?thesis by simp
qed

lemma sub_scan_skip_run:
  "(\<forall>c \<in> set X. py_lower c \<noteq> CHR ''u'') \<Longrightarrow>
   sub_scan (token k) tpl (X @ Z) = X @ sub_scan (token k) tpl Z"
proof (induction X)
  case Nil
  then show ?case by simp
next
  case (Cons x X)
  have "\<not> ci_prefix (token k) (x # X @ Z)"
  proof
    assume "ci_prefix (token k) (x # X @ Z)"
    then obtain a b c d Z' where "x # X @ Z = a # b # c # d # Z'" and "py_lower a = CHR ''u''"
      by (rule token_prefix_shape)
    with Cons.prems show False by simp
  qed
  then show ?case using Cons by (simp del: sub_scan.simps add: sub_scan_skip)
qed

lemma sub_scan_token_other:
  assumes U: "map py_lower U = map py_lower (token j)" and jk: "j \<noteq> k"
    and R: "\<not> ci_prefix ''_PH_'' R"
  shows "sub_scan (token k) tpl (U @ R) = U @ sub_scan (token k) tpl R"
proof -
  from U have mU: "map py_lower U = ''uniq_ph_'' @ (show_nat j @ ''_uniq'')"
    unfolding lower_token .
  have "\<exists>A B. U = A @ B \<and> ''uniq_ph_'' = map py_lower A \<and> show_nat j @ ''_uniq'' = map py_lower B"
    using mU by (rule map_eq_append_conv [THEN iffD1])
  then obtain A B where UA: "U = A @ B" and A: "map py_lower A = ''uniq_ph_''"
    and B: "map py_lower B = show_nat j @ ''_uniq''"
    by metis
  have "\<exists>D E. B = D @ E \<and> show_nat j = map py_lower D \<and> ''_uniq'' = map py_lower E"
    using B by (rule map_eq_append_conv [THEN iffD1])
  then obtain D E where BD: "B = D @ E" and D: "map py_lower D = show_nat j"
    and E: "map py_lower E = ''_uniq''"
    by metis
  from A obtain u0 A' where Au: "A = u0 # A'" and A': "map py_lower A' = ''niq_ph_''"
    by (auto simp: map_eq_Cons_conv)
  from E obtain e0 cu cn ci cq where Ee: "E = [e0, cu, cn, ci, cq]"
    and e0: "py_lower e0 = CHR ''_''"
    and low: "py_lower cn = CHR ''n''" "py_lower ci = CHR ''i''" "py_lower cq = CHR ''q''"
    by (auto simp: map_eq_Cons_conv)
  define U0 where "U0 = [u0]"
  define U1 where "U1 = A' @ D @ [e0]"
  define U2 where "U2 = [cu, cn, ci, cq]"
  have parts: "U = U0 @ U1 @ U2" and u0: "U0 = [u0]" and u2: "U2 = [cu, cn, ci, cq]"
    by (simp_all add: UA Au BD Ee U0_def U1_def U2_def)
  have U1: "map py_lower U1 = ''niq_ph_'' @ show_nat j @ ''_''"
    by (simp add: U1_def A' D e0)
  have no_u1: "\<forall>c \<in> set U1. py_lower c \<noteq> CHR ''u''"
  proof
    fix c assume "c \<in> set U1"
    then have "py_lower c \<in> set (map py_lower U1)" by simp
    then have "py_lower c \<in> set ''niq_ph_'' \<union> set (show_nat j) \<union> {CHR ''_''}"
      unfolding U1 by auto
    then show "py_lower c \<noteq> CHR ''u''"
      using show_nat_digits [of j] by auto
  qed
  have step0: "\<not> ci_prefix (token k) (U @ R)"
    using token_head_same [OF _ U] jk by blast
  have step2: "\<not> ci_prefix (token k) (cu # cn # ci # cq # R)"
  proof
    assume "ci_prefix (token k) (cu # cn # ci # cq # R)"
    then obtain a b c d Z' where "cu # cn # ci # cq # R = a # b # c # d # Z'"
      and "ci_prefix ''_PH_'' Z'"
      by (rule token_prefix_shape)
    with R show False by simp
  qed
  have tail: "sub_scan (token k) tpl ([cn, ci, cq] @ R) = [cn, ci, cq] @ sub_scan (token k) tpl R"
    by (rule sub_scan_skip_run) (simp add: low)
  have "sub_scan (token k) tpl (U @ R) = u0 # sub_scan (token k) tpl (U1 @ U2 @ R)"
    using step0 unfolding parts u0 by (simp del: sub_scan.simps add: sub_scan_skip)
  also have "sub_scan (token k) tpl (U1 @ U2 @ R) = U1 @ sub_scan (token k) tpl (U2 @ R)"
    by (rule sub_scan_skip_run [OF no_u1])
  also have "sub_scan (token k) tpl (U2 @ R) = cu # sub_scan (token k) tpl ([cn, ci, cq] @ R)"
    using step2 unfolding u2 by (simp del: sub_scan.simps add: sub_scan_skip)
  finally show ?thesis unfolding tail parts u0 u2 by simp
qed

lemma tokenish_token:
  assumes "map py_lower U = map py_lower (token n)"
  shows "tokenish (U @ R)"
proof -
  from assms obtain zs where "map py_lower U = ''uniq'' @ zs"
    unfolding lower_token by simp
  then have "prefix ''uniq'' (map py_lower (U @ R))" by (simp add: prefix_def)
  then show ?thesis unfolding tokenish_def ci_prefix_def lower_UNIQ by simp
qed

lemma join_tokens_tokenish_or_lit:
  assumes "lits_clean ps l" and "\<And>t. map py_lower (f t) = map py_lower t"
  shows "\<not> ci_prefix ''_PH_'' (join_tokens f n ps l)"
proof (cases ps)
  case Nil
  with assms(1) show ?thesis by (auto simp: lits_clean_def dest: ci_prefix_infix)
next
  case (Cons p ps')
  obtain l0 m where p: "p = (l0, m)" by (cases p)
  have tk: "tokenish (f (token n) @ join_tokens f (Suc n) ps' l)"
    by (rule tokenish_token) (rule assms(2))
  show ?thesis
  proof (cases "l0 = []")
    case True
    with tk show ?thesis unfolding Cons p by (simp add: tokenish_not_ph)
  next
    case False
    have "\<not> ci_infix ''_PH_'' l0" using assms(1) unfolding Cons p lits_clean_def by simp
    from straddle_ph [OF this tk False] show ?thesis unfolding Cons p by simp
  qed
qed

lemma sub_scan_no_occurrence:
  assumes "lits_clean ps l" and "\<And>t. map py_lower (f t) = map py_lower t" and "k < n"
  shows "sub_scan (token k) tpl (join_tokens f n ps l) = join_tokens f n ps l"
  using assms(1,3)
proof (induction ps arbitrary: n)
  case Nil
  then have "\<not> ci_infix ''_PH_'' l" by (simp add: lits_clean_def)
  from sub_scan_lit [OF this, of "[]" k tpl] show ?case by (simp add: tokenish_def)
next
  case (Cons p ps)
  obtain l0 m where p: "p = (l0, m)" by (cases p)
  let ?R = "join_tokens f (Suc n) ps l"
  have clean: "lits_clean ps l" and l0: "\<not> ci_infix ''_PH_'' l0"
    using Cons.prems(1) unfolding p lits_clean_def by simp_all
  have tk: "tokenish (f (token n) @ ?R)"
    by (rule tokenish_token) (rule assms(2))
  have R: "\<not> ci_prefix ''_PH_'' ?R"
    by (rule join_tokens_tokenish_or_lit [OF clean assms(2)])
  have "n \<noteq> k" using Cons.prems(2) by simp
  have "sub_scan (token k) tpl (l0 @ f (token n) @ ?R) = l0 @ sub_scan (token k) tpl (f (token n) @ ?R)"
    by (rule sub_scan_lit [OF l0 tk])
  also have "sub_scan (token k) tpl (f (token n) @ ?R) = f (token n) @ sub_scan (token k) tpl ?R"
    by (rule sub_scan_token_other [OF assms(2) \<open>n \<noteq> k\<close> R])
  also have "sub_scan (token k) tpl ?R = ?R"
    using Cons.IH [OF clean] Cons.prems(2) by simp
  finally show ?case unfolding p by simp
qed

lemma tokenize_plain: "backslash \<notin> set m \<Longrightarrow> tokenize m = Inr (map Ch m)"
  by (induction m rule: tokenize.induct) auto

lemma parse_items_plain: "parse_items (map Ch m) = Inr (map (\<lambda>c. TLit [c]) m)"
  by (induction m) auto

lemma expand_plain: "expand (map (\<lambda>c. TLit [c]) m) x = m"
  by (induction m) auto

lemma regex_sub_plain:
  "backslash \<notin> set m \<Longrightarrow>
   regex_sub (token n) m text = Inr (sub_scan (token n) (map (\<lambda>c. TLit [c]) m) text)"
  by (simp add: regex_sub_def parse_template_def tokenize_plain parse_items_plain token_not_Nil)

lemma number_from_length: "length (number_from a ms) = length ms"
  by (induction ms arbitrary: a) auto

lemma number_from_keys: "fst ` set (number_from a ms) = token ` {a..<a + length ms}"
proof (induction ms arbitrary: a)
  case Nil
  then show ?case by simp
next
  case (Cons m ms)
  have "{a..<a + length (m # ms)} = insert a {Suc a..<Suc a + length ms}" by auto
  then show ?case using Cons [of "Suc a"] by simp
qed

lemma dict_set_fresh: "k \<notin> fst ` set d \<Longrightarrow> dict_set d k v = d @ [(k, v)]"
  by (induction d) auto

lemma number_from_snoc:
  "number_from a (ms @ [m]) = number_from a ms @ [(token (a + length ms), m)]"
  by (induction ms arbitrary: a) auto

lemma repl_number_from:
  "repl (number_from 0 ms) m = (token (length ms), number_from 0 (ms @ [m]))"
proof -
  have "token (length ms) \<notin> fst ` set (number_from 0 ms)"
    unfolding number_from_keys by (auto dest: token_inj)
  then show ?thesis
    by (simp add: repl_def Let_def number_from_length dict_set_fresh number_from_snoc)
qed

lemma sub_repl_pieces:
  "sub_repl (number_from 0 ms) s =
     (join_tokens (\<lambda>t. t) (length ms) (fst (pieces s)) (snd (pieces s)),
      number_from 0 (ms @ map snd (fst (pieces s))))"
proof (induction s arbitrary: ms rule: pieces.induct)
  case 1
  then show ?case by simp
next
  case (2 c cs)
  show ?case
  proof (cases "PLACEHOLDER_PATTERN (c # cs)")
    case None
    show ?thesis
      using 2(1) [OF None, of ms] None
      by (auto simp add: pieces_None [OF None] simp del: pieces.simps split: list.splits)
  next
    case (Some a)
    obtain m rest where a: "a = (m, rest)" by (cases a)
    note S = Some [unfolded a]
    have IH: "sub_repl (number_from 0 (ms @ [m])) rest =
       (join_tokens (\<lambda>t. t) (Suc (length ms)) (fst (pieces rest)) (snd (pieces rest)),
        number_from 0 ((ms @ [m]) @ map snd (fst (pieces rest))))"
      using 2(2) [OF S refl, of "ms @ [m]"] by simp
    show ?thesis
      unfolding pieces_Some [OF S]
      using S IH by (simp add: repl_number_from)
  qed
qed

lemma protect_pieces:
  "protect_placeholders s =
     (join_tokens (\<lambda>t. t) 0 (fst (pieces s)) (snd (pieces s)),
      number_from 0 (map snd (fst (pieces s))))"
  using sub_repl_pieces [of "[]" s] by (simp add: protect_placeholders_def)

lemma lits_clean_join:
  "\<not> ci_infix ''_PH_'' (join_orig ps l) \<Longrightarrow> lits_clean ps l"
proof (induction ps)
  case Nil
  then show ?case by (simp add: lits_clean_def)
next
  case (Cons p ps)
  obtain l0 m where p: "p = (l0, m)" by (cases p)
  from Cons.prems have a: "\<not> ci_infix ''_PH_'' l0"
    unfolding p using ci_infix_appendI1 [of "''_PH_''" l0 "m @ join_orig ps l"] by auto
  from Cons.prems have "\<not> ci_infix ''_PH_'' (join_orig ps l)"
    unfolding p using ci_infix_appendI2 [of "''_PH_''" "join_orig ps l" "l0 @ m"] by auto
  with Cons.IH a show ?case unfolding p by (simp add: lits_clean_def)
qed

lemma restore_join:
  assumes f: "\<And>t. map py_lower (f t) = map py_lower t"
  shows "\<not> ci_infix ''_PH_'' (X @ join_orig ps l) \<Longrightarrow>
         \<forall>p \<in> set ps. backslash \<notin> set (snd p) \<Longrightarrow>
         restore_placeholders (X @ join_tokens f n ps l) (number_from n (map snd ps))
           = Inr (X @ join_orig ps l)"
proof (induction ps arbitrary: X n)
  case Nil
  then show ?case by simp
next
  case (Cons p ps)
  obtain l0 m where p: "p = (l0, m)" by (cases p)
  let ?R = "join_tokens f (Suc n) ps l"
  let ?tpl = "map (\<lambda>c. TLit [c]) m"
  have m: "backslash \<notin> set m" using Cons.prems(2) unfolding p by simp
  have whole: "\<not> ci_infix ''_PH_'' ((X @ l0 @ m) @ join_orig ps l)"
    using Cons.prems(1) unfolding p by simp
  have Xl0: "\<not> ci_infix ''_PH_'' (X @ l0)"
    using whole ci_infix_appendI1 [of "''_PH_''" "X @ l0" "m @ join_orig ps l"] by auto
  have "\<not> ci_infix ''_PH_'' (join_orig ps l)"
    using whole ci_infix_appendI2 [of "''_PH_''" "join_orig ps l" "X @ l0 @ m"] by auto
  then have clean: "lits_clean ps l" by (rule lits_clean_join)
  have tk: "tokenish (f (token n) @ ?R)"
    by (rule tokenish_token) (rule f)
  have "sub_scan (token n) ?tpl ((X @ l0) @ f (token n) @ ?R)
          = (X @ l0) @ sub_scan (token n) ?tpl (f (token n) @ ?R)"
    by (rule sub_scan_lit [OF Xl0 tk])
  also have "sub_scan (token n) ?tpl (f (token n) @ ?R)
          = expand ?tpl (f (token n)) @ sub_scan (token n) ?tpl ?R"
    by (rule sub_scan_token_same [OF f])
  also have "sub_scan (token n) ?tpl ?R = ?R"
    by (rule sub_scan_no_occurrence [OF clean f]) simp
  finally have scan: "sub_scan (token n) ?tpl (X @ l0 @ f (token n) @ ?R) = (X @ l0 @ m) @ ?R"
    by (simp add: expand_plain)
  have "restore_placeholders ((X @ l0 @ m) @ ?R) (number_from (Suc n) (map snd ps))
          = Inr ((X @ l0 @ m) @ join_orig ps l)"
    using Cons.IH [OF whole] Cons.prems(2) by simp
  then show ?case
    unfolding p using scan by (simp add: regex_sub_plain [OF m])
qed

lemma placeholder_chars: "p \<in> set ps \<Longrightarrow> set (snd p) \<subseteq> set (join_orig ps l)"
  by (induction ps) auto

lemma pieces_no_backslash:
  assumes "backslash \<notin> set text"
  shows "\<forall>p \<in> set (fst (pieces text)). backslash \<notin> set (snd p)"
proof
  fix p assume "p \<in> set (fst (pieces text))"
  then have "set (snd p) \<subseteq> set (join_orig (fst (pieces text)) (snd (pieces text)))"
    by (rule placeholder_chars)
  with assms show "backslash \<notin> set (snd p)" by (auto simp: join_orig_pieces)
qed

lemma restore_recased:
  assumes "\<not> ci_infix ''_PH_'' text" and "backslash \<notin> set text"
    and f: "\<And>t. map py_lower (f t) = map py_lower t"
  shows "restore_placeholders (join_tokens f 0 (fst (pieces text)) (snd (pieces text)))
           (snd (protect_placeholders text)) = Inr text"
proof -
  have "\<not> ci_infix ''_PH_'' ([] @ join_orig (fst (pieces text)) (snd (pieces text)))"
    using assms(1) by (simp add: join_orig_pieces)
  from restore_join [of f, OF f this pieces_no_backslash [OF assms(2)], of 0]
  show ?thesis by (simp add: protect_pieces join_orig_pieces)
qed

lemma py_lower_idem: "py_lower (py_lower c) = py_lower c"
proof -
  have "of_char c < (256::nat)" by simp
  then show ?thesis
    by (auto simp: py_lower_def Let_def)
qed

lemma py_lower_upper: "py_lower (ascii_upper c) = py_lower c"
proof -
  have "of_char c < (256::nat)" by simp
  then show ?thesis
    by (auto simp: py_lower_def ascii_upper_def Let_def)
qed

lemma lower_str_upper: "map py_lower (str_upper t) = map py_lower t"
  by (simp add: str_upper_def py_lower_upper)

lemma lower_str_lower: "map py_lower (str_lower t) = map py_lower t"
  by (simp add: str_lower_def py_lower_idem)

lemma lower_title_from: "map py_lower (title_from b t) = map py_lower t"
  by (induction t arbitrary: b) (simp_all add: py_lower_upper py_lower_idem)

lemma lower_str_title: "map py_lower (str_title t) = map py_lower t"
  by (simp add: str_title_def lower_title_from)

lemma str_title_token: "str_title ''UNIQ_PH_10_UNIQ'' = ''Uniq_Ph_10_Uniq''"
  by (simp add: str_title_def is_ascii_letter_def ascii_upper_def lower_eval)

lemmas pieces_eval = recased_def findall_def match_eval

lemmas case_eval = str_lower_def str_upper_def str_title_def is_ascii_letter_def ascii_upper_def

lemma number_from_fst: "map fst (number_from n ms) = map token [n..<n + length ms]"
proof (induction ms arbitrary: n)
  case Nil
  then show ?case by simp
next
  case (Cons m ms)
  have "[n..<n + length (m # ms)] = n # [Suc n..<Suc n + length ms]"
    by (simp add: upt_rec)
  then show ?case using Cons [of "Suc n"] by simp
qed

lemma number_from_snd: "map snd (number_from n ms) = ms"
  by (induction ms arbitrary: n) auto

lemma distinct_tokens: "distinct (map token [0..<N])"
  by (simp add: distinct_map inj_on_def) (metis token_inj)

lemma collision_protect:
  "protect_placeholders ''UNIQ_PH_0_UNIQ {x}''
     = (''UNIQ_PH_0_UNIQ UNIQ_PH_0_UNIQ'', [(''UNIQ_PH_0_UNIQ'', ''{x}'')])"
  by (simp add: protect_eval)

lemma collision_restore:
  "restore_placeholders ''UNIQ_PH_0_UNIQ UNIQ_PH_0_UNIQ'' [(''UNIQ_PH_0_UNIQ'', ''{x}'')]
     = Inr ''{x} {x}''"
  by (simp add: restore_eval)

lemma sample_clean:
  "\<not> ci_infix ''_PH_'' ''Hi {name}, %(n)d new'' \<and> backslash \<notin> set ''Hi {name}, %(n)d new''"
  by (simp add: ci_prefix_def lower_eval backslash_def)

lemma twice_protect:
  "protect_placeholders ''{x} and {x}'' =
     (''UNIQ_PH_0_UNIQ and UNIQ_PH_1_UNIQ'',
      [(''UNIQ_PH_0_UNIQ'', ''{x}''), (''UNIQ_PH_1_UNIQ'', ''{x}'')])"
  by (simp add: protect_eval)

lemma twice_restore:
  "restore_placeholders ''UNIQ_PH_0_UNIQ and UNIQ_PH_1_UNIQ''
      [(''UNIQ_PH_0_UNIQ'', ''{x}''), (''UNIQ_PH_1_UNIQ'', ''{x}'')] = Inr ''{x} and {x}''"
  by (simp add: restore_eval)

lemma clobber_protect:
  "protect_placeholders ''{x}{x}_PH_0_UNIQ'' =
     (''UNIQ_PH_0_UNIQUNIQ_PH_1_UNIQ_PH_0_UNIQ'',
      [(''UNIQ_PH_0_UNIQ'', ''{x}''), (''UNIQ_PH_1_UNIQ'', ''{x}'')])"
  by (simp add: protect_eval)

lemma clobber_restore:
  "restore_placeholders ''UNIQ_PH_0_UNIQUNIQ_PH_1_UNIQ_PH_0_UNIQ''
      [(''UNIQ_PH_0_UNIQ'', ''{x}''), (''UNIQ_PH_1_UNIQ'', ''{x}'')] = Inr ''{x}UNIQ_PH_1_{x}''"
  by (simp add: restore_eval)

lemma sample_recased_title:
  "recased str_title ''Hi {name}, %(n)d new'' = ''Hi Uniq_Ph_0_Uniq, Uniq_Ph_1_Uniq new''"
  by (simp add: pieces_eval case_eval token_def show_nat.simps digit_char_def lower_eval)

lemma overlap_protect:
  "protect_placeholders ''{a}{b}_PH_0_UNIQ'' =
     (''UNIQ_PH_0_UNIQUNIQ_PH_1_UNIQ_PH_0_UNIQ'',
      [(''UNIQ_PH_0_UNIQ'', ''{a}''), (''UNIQ_PH_1_UNIQ'', ''{b}'')])"
  by (simp add: protect_eval)

lemma overlap_recased:
  "recased str_lower ''{a}{b}_PH_0_UNIQ'' = ''uniq_ph_0_uniquniq_ph_1_uniq_PH_0_UNIQ''"
  by (simp add: pieces_eval case_eval token_def show_nat.simps digit_char_def lower_eval)

lemma overlap_restore:
  "restore_placeholders ''UNIQ_PH_0_UNIQUNIQ_PH_1_UNIQ_PH_0_UNIQ''
      [(''UNIQ_PH_0_UNIQ'', ''{a}''), (''UNIQ_PH_1_UNIQ'', ''{b}'')] = Inr ''{a}UNIQ_PH_1_{a}''"
  by (simp add: restore_eval)

lemma overlap_restore_lower:
  "restore_placeholders ''uniq_ph_0_uniquniq_ph_1_uniq_PH_0_UNIQ''
      [(''UNIQ_PH_0_UNIQ'', ''{a}''), (''UNIQ_PH_1_UNIQ'', ''{b}'')] = Inr ''{a}uniq_ph_1_{a}''"
  by (simp add: restore_eval)

lemma sub_repl_None:
  "PLACEHOLDER_PATTERN (c # cs) = None \<Longrightarrow>
   sub_repl d (c # cs) = (c # fst (sub_repl d cs), snd (sub_repl d cs))"
  by (simp split: prod.splits)

lemma sub_repl_no_match: "\<not> has_match s \<Longrightarrow> sub_repl d s = (s, d)"
proof (induction s)
  case Nil
  then show ?case by simp
next
  case (Cons c s)
  from Cons.prems have none: "PLACEHOLDER_PATTERN (c # s) = None" and "\<not> has_match s"
    by (cases "PLACEHOLDER_PATTERN (c # s)"; simp)+
  with Cons.IH have "sub_repl d s = (s, d)" by blast
  then show ?case unfolding sub_repl_None [OF none] by simp
qed

lemma open_brace_no_match:
  assumes "CHR ''}'' \<notin> set cs"
  shows "PLACEHOLDER_PATTERN (CHR ''{'' # cs) = None"
proof -
  have dw: "dropWhile (\<lambda>x. x \<noteq> CHR ''}'') cs = []"
    using assms by auto
  show ?thesis
    by (simp add: PLACEHOLDER_PATTERN_def brace_form_def percent_form_def Let_def dw)
qed

lemma percent_match_shape:
  assumes "PLACEHOLDER_PATTERN (CHR ''%'' # cs) \<noteq> None"
  shows "\<exists>name t rest. cs = CHR ''('' # name @ CHR '')'' # t # rest \<and> name \<noteq> []
           \<and> CHR '')'' \<notin> set name \<and> (t = CHR ''s'' \<or> t = CHR ''d'')"
proof -
  from assms obtain m r where "percent_form (CHR ''%'' # cs) = Some (m, r)"
    by (auto simp: PLACEHOLDER_PATTERN_def brace_form_def)
  then obtain a t where cs: "cs = CHR ''('' # a"
    and d: "dropWhile (\<lambda>x. x \<noteq> CHR '')'') a = CHR '')'' # t # r"
    and n: "takeWhile (\<lambda>x. x \<noteq> CHR '')'') a \<noteq> []"
    and t: "t = CHR ''s'' \<or> t = CHR ''d''"
    by (auto simp: percent_form_def Let_def lit_Some_iff
        split: option.splits if_splits list.splits)
  let ?name = "takeWhile (\<lambda>x. x \<noteq> CHR '')'') a"
  have "a = ?name @ dropWhile (\<lambda>x. x \<noteq> CHR '')'') a" by simp
  then have "a = ?name @ CHR '')'' # t # r" using d by simp
  moreover have "CHR '')'' \<notin> set ?name" by (auto dest: set_takeWhileD)
  ultimately show ?thesis using cs n t by blast
qed

lemma sample_no_match: "\<not> has_match ''50% of {x''"
  by (simp add: match_eval)

lemma sample_percent_tail:
  "\<not> (\<exists>name t rest. '' of {x'' = CHR ''('' # name @ CHR '')'' # t # rest \<and> name \<noteq> []
           \<and> CHR '')'' \<notin> set name \<and> (t = CHR ''s'' \<or> t = CHR ''d''))"
  by simp

subsection \<open>Catalog\<close>

lemma for_entries_Cons:
  "for_entries tr src dest st (e # po) =
   (fst (process_entry tr src dest st e) #
      fst (for_entries tr src dest (snd (snd (process_entry tr src dest st e))) po),
    fst (snd (process_entry tr src dest st e)) @
      fst (snd (for_entries tr src dest (snd (snd (process_entry tr src dest st e))) po)),
    snd (snd (for_entries tr src dest (snd (snd (process_entry tr src dest st e))) po)))"
  by (simp split: prod.splits)

lemma for_entries_length:
  "length (fst (for_entries tr src dest st po)) = length po"
  by (induction po arbitrary: st) (simp_all add: for_entries_Cons del: for_entries.simps(2))

lemma engine_at_0: "engine_at tr src dest st po 0 = st"
  by (simp add: engine_at_def)

lemma engine_at_Suc:
  "engine_at tr src dest st (e # po) (Suc i) =
   engine_at tr src dest (snd (snd (process_entry tr src dest st e))) po i"
  by (simp add: engine_at_def for_entries_Cons del: for_entries.simps(2))

lemma for_entries_nth:
  "i < length po \<Longrightarrow>
   fst (for_entries tr src dest st po) ! i =
   fst (process_entry tr src dest (engine_at tr src dest st po i) (po ! i))"
proof (induction po arbitrary: st i)
  case Nil
  then show ?case by simp
next
  case (Cons e po)
  show ?case
  proof (cases i)
    case 0
    then show ?thesis by (simp add: engine_at_0 for_entries_Cons del: for_entries.simps(2))
  next
    case (Suc j)
    with Cons.prems have j: "j < length po" by simp
    show ?thesis
      using Cons.IH [OF j] Suc
      by (simp add: engine_at_Suc for_entries_Cons del: for_entries.simps(2))
  qed
qed

lemma for_entries_printed:
  "i < length po \<Longrightarrow>
   set (fst (snd (process_entry tr src dest (engine_at tr src dest st po i) (po ! i))))
   \<subseteq> set (fst (snd (for_entries tr src dest st po)))"
proof (induction po arbitrary: st i)
  case Nil
  then show ?case by simp
next
  case (Cons e po)
  show ?case
  proof (cases i)
    case 0
    then show ?thesis by (simp add: engine_at_0 for_entries_Cons del: for_entries.simps(2))
  next
    case (Suc j)
    with Cons.prems have j: "j < length po" by simp
    show ?thesis
      using Cons.IH [OF j] Suc
      by (auto simp add: engine_at_Suc for_entries_Cons simp del: for_entries.simps(2))
  qed
qed

lemma translate_po_saved:
  assumes "pofile fs input_file = Inr po" and "output_file \<notin> read_only fs"
  shows "translate_po tr st fs input_file output_file src dest =
     \<lparr>raised = None,
      disk = fs\<lparr>files := (files fs)(output_file \<mapsto> fst (for_entries tr src dest st po))\<rparr>,
      printed = fst (snd (for_entries tr src dest st po)) @ [Saved output_file],
      engine = snd (snd (for_entries tr src dest st po))\<rparr>"
  using assms by (simp add: translate_po_def save_def split: prod.splits)

lemma translate_text_echo:
  "translate_text echo_engine 0 ''Bye {name}'' ''en'' ''es'' = (Inr ''Bye {name}'', 1)"
  by (simp add: translate_text_def echo_engine_def protect_eval restore_eval)

section \<open>The placeholder codec\<close>

text \<open>
  Claim C1, as stated, fails: a text that already holds the text of a token is not
  reconstructed, because the token in the literal text is replaced too.
\<close>

theorem round_trip_collision:
  "restore_placeholders (fst (protect_placeholders ''UNIQ_PH_0_UNIQ {x}''))
     (snd (protect_placeholders ''UNIQ_PH_0_UNIQ {x}'')) = Inr ''{x} {x}''
   \<and> restore_placeholders (fst (protect_placeholders ''UNIQ_PH_0_UNIQ {x}''))
     (snd (protect_placeholders ''UNIQ_PH_0_UNIQ {x}'')) \<noteq> Inr ''UNIQ_PH_0_UNIQ {x}''"
  unfolding collision_protect fst_conv snd_conv collision_restore by simp

text \<open>
  Claim C1, amended. For every text that contains no backslash and no occurrence of
  \<open>_PH_\<close> in any case, \<open>restore_placeholders\<close> applied to the safe text and the token
  map that \<open>protect_placeholders\<close> returns gives the original text back.
\<close>

theorem round_trip_clean:
  assumes "\<not> ci_infix ''_PH_'' text" and "backslash \<notin> set text"
  shows "restore_placeholders (fst (protect_placeholders text))
           (snd (protect_placeholders text)) = Inr text"
  using restore_recased [OF assms, of "\<lambda>t. t"] by (simp add: protect_pieces)

theorem round_trip_clean_witness:
  "\<not> ci_infix ''_PH_'' ''Hi {name}, %(n)d new'' \<and> backslash \<notin> set ''Hi {name}, %(n)d new''
   \<and> restore_placeholders (fst (protect_placeholders ''Hi {name}, %(n)d new''))
           (snd (protect_placeholders ''Hi {name}, %(n)d new'')) = Inr ''Hi {name}, %(n)d new''"
  using round_trip_clean [of "''Hi {name}, %(n)d new''"] sample_clean by simp

text \<open>
  Claim C3, as stated, fails in its last part: two identical placeholders get two distinct
  tokens, but when the text goes on with \<open>_PH_0_UNIQ\<close> the second token is destroyed
  while the first is restored, and the second placeholder is not reconstructed.
\<close>

theorem repeated_placeholder_clobbered:
  "protect_placeholders ''{x}{x}_PH_0_UNIQ'' =
     (''UNIQ_PH_0_UNIQUNIQ_PH_1_UNIQ_PH_0_UNIQ'',
      [(''UNIQ_PH_0_UNIQ'', ''{x}''), (''UNIQ_PH_1_UNIQ'', ''{x}'')])
   \<and> restore_placeholders (fst (protect_placeholders ''{x}{x}_PH_0_UNIQ''))
       (snd (protect_placeholders ''{x}{x}_PH_0_UNIQ'')) = Inr ''{x}UNIQ_PH_1_{x}''
   \<and> restore_placeholders (fst (protect_placeholders ''{x}{x}_PH_0_UNIQ''))
       (snd (protect_placeholders ''{x}{x}_PH_0_UNIQ'')) \<noteq> Inr ''{x}{x}_PH_0_UNIQ''"
  unfolding clobber_protect fst_conv snd_conv clobber_restore by simp

text \<open>
  Claim C3, amended. For every text, cut into literal stretches and matches: the safe
  text has the token numbered \<open>i\<close>, counting from zero, in the place of match \<open>i\<close>; the
  token map pairs these tokens, in order, with the matches, equal matches included, and
  its keys are distinct; for \<open>{x} and {x}\<close> the result is the two tokens
  \<open>UNIQ_PH_0_UNIQ\<close> and \<open>UNIQ_PH_1_UNIQ\<close>, and \<open>restore_placeholders\<close> reconstructs
  both occurrences; and it reconstructs every text that contains no backslash and no
  occurrence of \<open>_PH_\<close> in any case.
\<close>

theorem counter_uniqueness:
  "join_orig (fst (pieces text)) (snd (pieces text)) = text
   \<and> fst (protect_placeholders text)
       = join_tokens (\<lambda>t. t) 0 (fst (pieces text)) (snd (pieces text))
   \<and> map snd (snd (protect_placeholders text)) = findall text
   \<and> map fst (snd (protect_placeholders text)) = map token [0..<length (findall text)]
   \<and> distinct (map fst (snd (protect_placeholders text)))
   \<and> protect_placeholders ''{x} and {x}'' =
       (''UNIQ_PH_0_UNIQ and UNIQ_PH_1_UNIQ'',
        [(''UNIQ_PH_0_UNIQ'', ''{x}''), (''UNIQ_PH_1_UNIQ'', ''{x}'')])
   \<and> restore_placeholders (fst (protect_placeholders ''{x} and {x}''))
        (snd (protect_placeholders ''{x} and {x}'')) = Inr ''{x} and {x}''
   \<and> (\<not> ci_infix ''_PH_'' text \<and> backslash \<notin> set text \<longrightarrow>
        restore_placeholders (fst (protect_placeholders text))
          (snd (protect_placeholders text)) = Inr text)"
proof -
  have split: "join_orig (fst (pieces text)) (snd (pieces text)) = text"
    by (rule join_orig_pieces)
  have safe: "fst (protect_placeholders text)
       = join_tokens (\<lambda>t. t) 0 (fst (pieces text)) (snd (pieces text))"
    by (simp add: protect_pieces)
  have keys: "map fst (snd (protect_placeholders text)) = map token [0..<length (findall text)]"
    by (simp add: protect_pieces number_from_fst findall_def)
  have vals: "map snd (snd (protect_placeholders text)) = findall text"
    by (simp add: protect_pieces number_from_snd findall_def)
  have dist: "distinct (map fst (snd (protect_placeholders text)))"
    unfolding keys by (rule distinct_tokens)
  have ex: "restore_placeholders (fst (protect_placeholders ''{x} and {x}''))
        (snd (protect_placeholders ''{x} and {x}'')) = Inr ''{x} and {x}''"
    unfolding twice_protect fst_conv snd_conv by (rule twice_restore)
  have gen: "\<not> ci_infix ''_PH_'' text \<and> backslash \<notin> set text \<longrightarrow>
        restore_placeholders (fst (protect_placeholders text))
          (snd (protect_placeholders text)) = Inr text"
    using restore_recased [of "text" "\<lambda>t. t"] by (simp add: protect_pieces)
  from split safe keys vals dist twice_protect ex gen show ?thesis by blast
qed

theorem counter_uniqueness_witness:
  "map fst (snd (protect_placeholders ''Hi {name}, %(n)d new''))
      = map token [0..<length (findall ''Hi {name}, %(n)d new'')]
   \<and> \<not> ci_infix ''_PH_'' ''Hi {name}, %(n)d new'' \<and> backslash \<notin> set ''Hi {name}, %(n)d new''
   \<and> restore_placeholders (fst (protect_placeholders ''Hi {name}, %(n)d new''))
        (snd (protect_placeholders ''Hi {name}, %(n)d new'')) = Inr ''Hi {name}, %(n)d new''"
  using counter_uniqueness [of "''Hi {name}, %(n)d new''"] sample_clean by blast

text \<open>
  Claim C4, as stated, fails: in a text where a token is destroyed during restoration, the
  remains of that token keep the case they were given, so restoring the safe text with
  lowercased tokens and restoring the unmodified safe text give different results.
\<close>

theorem lowercased_tokens_differ:
  "restore_placeholders (recased str_lower ''{a}{b}_PH_0_UNIQ'')
      (snd (protect_placeholders ''{a}{b}_PH_0_UNIQ'')) = Inr ''{a}uniq_ph_1_{a}''
   \<and> restore_placeholders (fst (protect_placeholders ''{a}{b}_PH_0_UNIQ''))
      (snd (protect_placeholders ''{a}{b}_PH_0_UNIQ'')) = Inr ''{a}UNIQ_PH_1_{a}''
   \<and> restore_placeholders (recased str_lower ''{a}{b}_PH_0_UNIQ'')
      (snd (protect_placeholders ''{a}{b}_PH_0_UNIQ''))
     \<noteq> restore_placeholders (fst (protect_placeholders ''{a}{b}_PH_0_UNIQ''))
      (snd (protect_placeholders ''{a}{b}_PH_0_UNIQ''))"
  unfolding overlap_protect overlap_recased fst_conv snd_conv overlap_restore
    overlap_restore_lower
  by simp

text \<open>
  Claim C4, amended. For every text that contains no backslash and no occurrence of
  \<open>_PH_\<close> in any case: when the tokens of the safe text are uppercased, lowercased or
  title-cased, \<open>restore_placeholders\<close> with the returned map still gives the original
  text, the same result as for the unmodified safe text.
\<close>

theorem case_tolerance_clean:
  assumes "\<not> ci_infix ''_PH_'' text" and "backslash \<notin> set text"
    and "f = str_upper \<or> f = str_lower \<or> f = str_title"
  shows "restore_placeholders (recased f text) (snd (protect_placeholders text)) = Inr text
    \<and> restore_placeholders (recased f text) (snd (protect_placeholders text))
        = restore_placeholders (fst (protect_placeholders text)) (snd (protect_placeholders text))
    \<and> recased (\<lambda>t. t) text = fst (protect_placeholders text)"
proof -
  have f: "\<And>t. map py_lower (f t) = map py_lower t"
    using assms(3) lower_str_upper lower_str_lower lower_str_title by blast
  have a: "restore_placeholders (recased f text) (snd (protect_placeholders text)) = Inr text"
    unfolding recased_def by (rule restore_recased [OF assms(1,2) f])
  have b: "recased (\<lambda>t. t) text = fst (protect_placeholders text)"
    by (simp add: recased_def protect_pieces)
  have "restore_placeholders (recased (\<lambda>t. t) text) (snd (protect_placeholders text)) = Inr text"
    unfolding recased_def by (rule restore_recased [OF assms(1,2)]) simp
  with a b show ?thesis by simp
qed

theorem case_tolerance_clean_witness:
  "\<not> ci_infix ''_PH_'' ''Hi {name}, %(n)d new'' \<and> backslash \<notin> set ''Hi {name}, %(n)d new''
   \<and> recased str_title ''Hi {name}, %(n)d new'' = ''Hi Uniq_Ph_0_Uniq, Uniq_Ph_1_Uniq new''
   \<and> restore_placeholders (recased str_title ''Hi {name}, %(n)d new'')
        (snd (protect_placeholders ''Hi {name}, %(n)d new'')) = Inr ''Hi {name}, %(n)d new''"
  using case_tolerance_clean [of "''Hi {name}, %(n)d new''" str_title] sample_clean
    sample_recased_title by blast

text \<open>
  Claim C9. \<open>protect_placeholders\<close> returns a text without any match unchanged, with an
  empty token map, the empty text in particular. A \<open>{\<close> with no \<open>}\<close> after it gives no
  match, a \<open>%\<close> that is not followed by \<open>(name)s\<close> or \<open>(name)d\<close> with a non-empty name
  gives no match, and a character where no match starts is copied as it is.
\<close>

theorem no_match_left_literal:
  "protect_placeholders [] = ([], [])
   \<and> (\<not> has_match text \<longrightarrow> protect_placeholders text = (text, []))
   \<and> (CHR ''}'' \<notin> set cs \<longrightarrow> PLACEHOLDER_PATTERN (CHR ''{'' # cs) = None)
   \<and> (\<not> (\<exists>name t rest. cs' = CHR ''('' # name @ CHR '')'' # t # rest \<and> name \<noteq> []
           \<and> CHR '')'' \<notin> set name \<and> (t = CHR ''s'' \<or> t = CHR ''d''))
        \<longrightarrow> PLACEHOLDER_PATTERN (CHR ''%'' # cs') = None)
   \<and> (PLACEHOLDER_PATTERN (c # s) = None \<longrightarrow>
        sub_repl d (c # s) = (c # fst (sub_repl d s), snd (sub_repl d s)))"
proof -
  have 1: "protect_placeholders [] = ([], [])"
    by (simp add: protect_placeholders_def)
  have 2: "\<not> has_match text \<longrightarrow> protect_placeholders text = (text, [])"
    by (simp add: protect_placeholders_def sub_repl_no_match)
  have 3: "CHR ''}'' \<notin> set cs \<longrightarrow> PLACEHOLDER_PATTERN (CHR ''{'' # cs) = None"
    by (simp add: open_brace_no_match)
  have 4: "\<not> (\<exists>name t rest. cs' = CHR ''('' # name @ CHR '')'' # t # rest \<and> name \<noteq> []
           \<and> CHR '')'' \<notin> set name \<and> (t = CHR ''s'' \<or> t = CHR ''d''))
        \<longrightarrow> PLACEHOLDER_PATTERN (CHR ''%'' # cs') = None"
    using percent_match_shape [of cs'] by blast
  have 5: "PLACEHOLDER_PATTERN (c # s) = None \<longrightarrow>
        sub_repl d (c # s) = (c # fst (sub_repl d s), snd (sub_repl d s))"
    by (simp add: sub_repl_None del: sub_repl.simps(2))
  from 1 2 3 4 5 show ?thesis by blast
qed

theorem no_match_left_literal_witness:
  "\<not> has_match ''50% of {x'' \<and> protect_placeholders ''50% of {x'' = (''50% of {x'', [])
   \<and> CHR ''}'' \<notin> set ''x'' \<and> PLACEHOLDER_PATTERN (CHR ''{'' # ''x'') = None
   \<and> \<not> (\<exists>name t rest. '' of {x'' = CHR ''('' # name @ CHR '')'' # t # rest \<and> name \<noteq> []
           \<and> CHR '')'' \<notin> set name \<and> (t = CHR ''s'' \<or> t = CHR ''d''))
   \<and> PLACEHOLDER_PATTERN (CHR ''%'' # '' of {x'') = None
   \<and> sub_repl [] (CHR ''%'' # '' of {x'')
       = (CHR ''%'' # fst (sub_repl [] '' of {x''), snd (sub_repl [] '' of {x''))"
  using no_match_left_literal [of "''50% of {x''" "''x''" "'' of {x''" "CHR ''%''" "'' of {x''" "[]"]
    sample_no_match sample_percent_tail
  by simp

text \<open>
  Claim C10, as stated, fails: a substring \<open>{}\<close> is not always left as literal text
  in the safe text. In \<open>{{}}\<close> the match \<open>{{}\<close> that starts one character earlier
  takes it in, and it goes into the token.
\<close>

theorem empty_braces_inside_match:
  "protect_placeholders ''{{}}'' = (''UNIQ_PH_0_UNIQ}'', [(''UNIQ_PH_0_UNIQ'', ''{{}'')])"
  by (simp add: protect_eval)

text \<open>
  Claim C10, amended. Both forms need a non-empty interior: no match starts at \<open>{}\<close>,
  \<open>%()s\<close> or \<open>%()d\<close>, whatever follows, and no match is ever one of these three
  strings; where the scan reaches such a substring, that is where it does not lie inside
  a match that started earlier, it copies these characters and makes no token for them.
\<close>

theorem empty_interior_not_matched:
  "PLACEHOLDER_PATTERN (''{}'' @ rest) = None
   \<and> PLACEHOLDER_PATTERN (''%()s'' @ rest) = None
   \<and> PLACEHOLDER_PATTERN (''%()d'' @ rest) = None
   \<and> sub_repl d (''{}'' @ rest) = (''{}'' @ fst (sub_repl d rest), snd (sub_repl d rest))
   \<and> sub_repl d (''%()s'' @ rest) = (''%()s'' @ fst (sub_repl d rest), snd (sub_repl d rest))
   \<and> sub_repl d (''%()d'' @ rest) = (''%()d'' @ fst (sub_repl d rest), snd (sub_repl d rest))
   \<and> protect_placeholders ''{}'' = (''{}'', [])
   \<and> protect_placeholders ''%()s'' = (''%()s'', [])
   \<and> protect_placeholders ''%()d'' = (''%()d'', [])
   \<and> PLACEHOLDER_PATTERN s \<noteq> Some (''{}'', r)
   \<and> PLACEHOLDER_PATTERN s \<noteq> Some (''%()s'', r)
   \<and> PLACEHOLDER_PATTERN s \<noteq> Some (''%()d'', r)"
proof -
  have m: "PLACEHOLDER_PATTERN (''{}'' @ rest) = None"
    "PLACEHOLDER_PATTERN (''%()s'' @ rest) = None"
    "PLACEHOLDER_PATTERN (''%()d'' @ rest) = None"
    by (simp_all add: match_eval)
  have s: "sub_repl d (''{}'' @ rest) = (''{}'' @ fst (sub_repl d rest), snd (sub_repl d rest))"
    "sub_repl d (''%()s'' @ rest) = (''%()s'' @ fst (sub_repl d rest), snd (sub_repl d rest))"
    "sub_repl d (''%()d'' @ rest) = (''%()d'' @ fst (sub_repl d rest), snd (sub_repl d rest))"
    by (simp_all add: match_eval split: prod.splits)
  have p: "protect_placeholders ''{}'' = (''{}'', [])"
    "protect_placeholders ''%()s'' = (''%()s'', [])"
    "protect_placeholders ''%()d'' = (''%()d'', [])"
    by (simp_all add: protect_eval)
  have n1: "PLACEHOLDER_PATTERN s \<noteq> Some (''{}'', r)"
    by (auto simp: PLACEHOLDER_PATTERN_def brace_form_def percent_form_def Let_def
        split: option.splits if_splits list.splits)
  have n2: "PLACEHOLDER_PATTERN s \<noteq> Some (''%()s'', r)"
    by (auto simp: PLACEHOLDER_PATTERN_def brace_form_def percent_form_def Let_def
        split: option.splits if_splits list.splits)
  have n3: "PLACEHOLDER_PATTERN s \<noteq> Some (''%()d'', r)"
    by (auto simp: PLACEHOLDER_PATTERN_def brace_form_def percent_form_def Let_def
        split: option.splits if_splits list.splits)
  from m s p n1 n2 n3 show ?thesis by blast
qed

section \<open>The end-to-end scenario\<close>

text \<open>
  Claim C5. For the input \<open>Hello {name}, you have %(count)d messages\<close>,
  \<open>protect_placeholders\<close> returns the safe text
  \<open>Hello UNIQ_PH_0_UNIQ, you have UNIQ_PH_1_UNIQ messages\<close> and the map from
  \<open>UNIQ_PH_0_UNIQ\<close> to \<open>{name}\<close> and from \<open>UNIQ_PH_1_UNIQ\<close> to \<open>%(count)d\<close>; and
  \<open>restore_placeholders\<close> on the mixed-case translation with that map returns
  \<open>Hola {name}, tienes %(count)d mensajes\<close>.
\<close>

theorem end_to_end_scenario:
  "protect_placeholders ''Hello {name}, you have %(count)d messages'' =
     (''Hello UNIQ_PH_0_UNIQ, you have UNIQ_PH_1_UNIQ messages'',
      [(''UNIQ_PH_0_UNIQ'', ''{name}''), (''UNIQ_PH_1_UNIQ'', ''%(count)d'')])
   \<and> restore_placeholders ''Hola UNIQ_ph_0_uniq, tienes UNIQ_PH_1_UNIQ mensajes''
       [(''UNIQ_PH_0_UNIQ'', ''{name}''), (''UNIQ_PH_1_UNIQ'', ''%(count)d'')] =
     Inr ''Hola {name}, tienes %(count)d mensajes''"
proof
  show "protect_placeholders ''Hello {name}, you have %(count)d messages'' =
     (''Hello UNIQ_PH_0_UNIQ, you have UNIQ_PH_1_UNIQ messages'',
      [(''UNIQ_PH_0_UNIQ'', ''{name}''), (''UNIQ_PH_1_UNIQ'', ''%(count)d'')])"
    by (simp add: protect_eval)
  show "restore_placeholders ''Hola UNIQ_ph_0_uniq, tienes UNIQ_PH_1_UNIQ mensajes''
       [(''UNIQ_PH_0_UNIQ'', ''{name}''), (''UNIQ_PH_1_UNIQ'', ''%(count)d'')] =
     Inr ''Hola {name}, tienes %(count)d mensajes''"
    by (simp add: restore_eval)
qed

section \<open>The catalog walker\<close>

text \<open>
  Claim C7. In a full run of \<open>translate_po\<close>, an entry whose source string is empty, or
  whose target string is non-empty after trimming whitespace, is left untouched: the
  saved catalog holds the very same entry at its position.
\<close>

theorem skipped_entries_untouched:
  assumes "pofile fs input_file = Inr po" and "output_file \<notin> read_only fs"
    and "i < length po"
    and "msgid (po ! i) = [] \<or> strip (msgstr (po ! i)) \<noteq> []"
  shows "\<exists>po'. files (disk (translate_po tr st fs input_file output_file src dest)) output_file
            = Some po' \<and> length po' = length po \<and> po' ! i = po ! i"
proof -
  have "fst (process_entry tr src dest (engine_at tr src dest st po i) (po ! i)) = po ! i"
    using assms(4) by (auto simp: process_entry_def)
  then show ?thesis
    using assms(3) by (simp add: translate_po_saved [OF assms(1,2)] for_entries_length for_entries_nth)
qed

theorem skipped_entries_untouched_witness:
  "pofile (sample_disk [fuzzy_done]) ''in.po'' = Inr [fuzzy_done] \<and> ''out.po'' \<notin> read_only (sample_disk [fuzzy_done])
   \<and> (0::nat) < length [fuzzy_done]
   \<and> (msgid ([fuzzy_done] ! 0) = [] \<or> strip (msgstr ([fuzzy_done] ! 0)) \<noteq> [])
   \<and> (\<exists>po'. files (disk (translate_po echo_engine 0 (sample_disk [fuzzy_done]) ''in.po'' ''out.po'' ''en'' ''es'')) ''out.po''
            = Some po' \<and> length po' = length [fuzzy_done] \<and> po' ! 0 = [fuzzy_done] ! 0)"
  using skipped_entries_untouched [of "sample_disk [fuzzy_done]" "''in.po''" "[fuzzy_done]" "''out.po''" 0
     echo_engine 0 "''en''" "''es''"]
  by (simp add: pofile_def sample_disk_def fuzzy_done_def strip_def is_space_def)

text \<open>
  Claim C6. An entry that the loop translates with success has its target string set to
  the result, its \<open>fuzzy\<close> attribute false and \<open>fuzzy\<close> absent from its flags
  afterwards.
\<close>

theorem success_sets_target_and_clears_fuzzy:
  assumes "pofile fs input_file = Inr po" and "output_file \<notin> read_only fs"
    and "i < length po"
    and "msgid (po ! i) \<noteq> []" and "strip (msgstr (po ! i)) = []"
    and "translate_text tr (engine_at tr src dest st po i) (msgid (po ! i)) src dest
           = (Inr translated, st')"
  shows "\<exists>po'. files (disk (translate_po tr st fs input_file output_file src dest)) output_file
            = Some po' \<and> length po' = length po
          \<and> msgstr (po' ! i) = translated
          \<and> \<not> fuzzy (po' ! i) \<and> ''fuzzy'' \<notin> flags (po' ! i)
          \<and> msgid (po' ! i) = msgid (po ! i)"
proof -
  let ?e = "fst (process_entry tr src dest (engine_at tr src dest st po i) (po ! i))"
  have "msgstr ?e = translated \<and> \<not> fuzzy ?e \<and> ''fuzzy'' \<notin> flags ?e \<and> msgid ?e = msgid (po ! i)"
    using assms(4,5,6) by (simp add: process_entry_def)
  then show ?thesis
    using assms(3) by (simp add: translate_po_saved [OF assms(1,2)] for_entries_length for_entries_nth)
qed

theorem success_sets_target_and_clears_fuzzy_witness:
  "pofile (sample_disk [fuzzy_todo]) ''in.po'' = Inr [fuzzy_todo]
   \<and> ''out.po'' \<notin> read_only (sample_disk [fuzzy_todo])
   \<and> (0::nat) < length [fuzzy_todo]
   \<and> msgid ([fuzzy_todo] ! 0) \<noteq> [] \<and> strip (msgstr ([fuzzy_todo] ! 0)) = []
   \<and> translate_text echo_engine (engine_at echo_engine ''en'' ''es'' 0 [fuzzy_todo] 0)
        (msgid ([fuzzy_todo] ! 0)) ''en'' ''es'' = (Inr ''Bye {name}'', 1)
   \<and> (\<exists>po'. files (disk (translate_po echo_engine 0 (sample_disk [fuzzy_todo])
                 ''in.po'' ''out.po'' ''en'' ''es'')) ''out.po'' = Some po'
          \<and> length po' = length [fuzzy_todo]
          \<and> msgstr (po' ! 0) = ''Bye {name}''
          \<and> \<not> fuzzy (po' ! 0) \<and> ''fuzzy'' \<notin> flags (po' ! 0)
          \<and> msgid (po' ! 0) = msgid ([fuzzy_todo] ! 0))"
  using success_sets_target_and_clears_fuzzy [of "sample_disk [fuzzy_todo]" "''in.po''"
     "[fuzzy_todo]" "''out.po''" 0 echo_engine "''en''" "''es''" 0 "''Bye {name}''" 1]
    translate_text_echo
  by (simp add: pofile_def sample_disk_def fuzzy_todo_def strip_def engine_at_def)

text \<open>
  Claim C8. When the engine raises for one entry, that entry is left as it was, the
  failure is printed with the source text and the exception, every entry of the catalog
  (those after the failing one too) is what the loop body makes of it, no exception
  leaves the run, and the catalog is saved.
\<close>

theorem failure_is_isolated:
  assumes "pofile fs input_file = Inr po" and "output_file \<notin> read_only fs"
    and "i < length po"
    and "msgid (po ! i) \<noteq> []" and "strip (msgstr (po ! i)) = []"
    and "tr (engine_at tr src dest st po i) (fst (protect_placeholders (msgid (po ! i)))) src dest
           = (Inl x, st')"
  shows "\<exists>po'. files (disk (translate_po tr st fs input_file output_file src dest)) output_file
            = Some po'
          \<and> raised (translate_po tr st fs input_file output_file src dest) = None
          \<and> length po' = length po
          \<and> po' ! i = po ! i
          \<and> ErrorTranslating (msgid (po ! i)) x
              \<in> set (printed (translate_po tr st fs input_file output_file src dest))
          \<and> (\<forall>j < length po. po' ! j =
                fst (process_entry tr src dest (engine_at tr src dest st po j) (po ! j)))"
proof -
  let ?p = "process_entry tr src dest (engine_at tr src dest st po i) (po ! i)"
  have tt: "translate_text tr (engine_at tr src dest st po i) (msgid (po ! i)) src dest = (Inl x, st')"
    using assms(6) by (auto simp add: translate_text_def split: prod.splits)
  have p: "?p = (po ! i, [ErrorTranslating (msgid (po ! i)) x], st')"
    using assms(4,5) tt by (simp add: process_entry_def)
  have "ErrorTranslating (msgid (po ! i)) x \<in> set (fst (snd (for_entries tr src dest st po)))"
    using for_entries_printed [OF assms(3), of tr src dest st] p by simp
  then show ?thesis
    using assms(3) p by (simp add: translate_po_saved [OF assms(1,2)] for_entries_length for_entries_nth)
qed

theorem failure_is_isolated_witness:
  "pofile (sample_disk [fuzzy_todo, fuzzy_done]) ''in.po'' = Inr [fuzzy_todo, fuzzy_done]
   \<and> ''out.po'' \<notin> read_only (sample_disk [fuzzy_todo, fuzzy_done])
   \<and> (0::nat) < length [fuzzy_todo, fuzzy_done]
   \<and> msgid ([fuzzy_todo, fuzzy_done] ! 0) \<noteq> []
   \<and> strip (msgstr ([fuzzy_todo, fuzzy_done] ! 0)) = []
   \<and> failing_engine (engine_at failing_engine ''en'' ''es'' 0 [fuzzy_todo, fuzzy_done] 0)
        (fst (protect_placeholders (msgid ([fuzzy_todo, fuzzy_done] ! 0)))) ''en'' ''es''
        = (Inl (EngineFailure ''timeout''), 1)
   \<and> (\<exists>po'. files (disk (translate_po failing_engine 0 (sample_disk [fuzzy_todo, fuzzy_done])
                 ''in.po'' ''out.po'' ''en'' ''es'')) ''out.po'' = Some po'
          \<and> raised (translate_po failing_engine 0 (sample_disk [fuzzy_todo, fuzzy_done])
                 ''in.po'' ''out.po'' ''en'' ''es'') = None
          \<and> length po' = length [fuzzy_todo, fuzzy_done]
          \<and> po' ! 0 = [fuzzy_todo, fuzzy_done] ! 0
          \<and> ErrorTranslating (msgid ([fuzzy_todo, fuzzy_done] ! 0)) (EngineFailure ''timeout'')
              \<in> set (printed (translate_po failing_engine 0 (sample_disk [fuzzy_todo, fuzzy_done])
                 ''in.po'' ''out.po'' ''en'' ''es''))
          \<and> (\<forall>j < length [fuzzy_todo, fuzzy_done]. po' ! j =
                fst (process_entry failing_engine ''en'' ''es''
                  (engine_at failing_engine ''en'' ''es'' 0 [fuzzy_todo, fuzzy_done] j)
                  ([fuzzy_todo, fuzzy_done] ! j))))"
  using failure_is_isolated [of "sample_disk [fuzzy_todo, fuzzy_done]" "''in.po''"
     "[fuzzy_todo, fuzzy_done]" "''out.po''" 0 failing_engine "''en''" "''es''" 0
     "EngineFailure ''timeout''" 1]
  by (simp add: pofile_def sample_disk_def fuzzy_todo_def strip_def engine_at_def
      failing_engine_def)

text \<open>
  Claim C2, as stated, fails: an entry that was skipped because it already had a target
  string keeps its fuzzy marker, in both representations.
\<close>

theorem fuzzy_kept_on_skipped_entry:
  "files (disk (translate_po echo_engine 0 (sample_disk [fuzzy_done]) ''in.po'' ''out.po'' ''en'' ''es'')) ''out.po''
     = Some [\<lparr>msgid = ''Hi'', msgstr = ''Hola'', flags = {''fuzzy''}, fuzzy = True\<rparr>]"
  by (simp add: po_eval fuzzy_done_def)

text \<open>
  Claim C2, amended. Every entry whose target string was empty in the input satisfies:
  if its target string is non-empty in the saved catalog, then the fuzzy marker is absent
  in both representations.
\<close>

theorem fresh_target_not_fuzzy:
  assumes "pofile fs input_file = Inr po" and "output_file \<notin> read_only fs"
    and "i < length po"
    and "msgstr (po ! i) = []"
  shows "\<exists>po'. files (disk (translate_po tr st fs input_file output_file src dest)) output_file
            = Some po' \<and> length po' = length po
          \<and> (msgstr (po' ! i) \<noteq> [] \<longrightarrow> \<not> fuzzy (po' ! i) \<and> ''fuzzy'' \<notin> flags (po' ! i))"
proof -
  let ?e = "fst (process_entry tr src dest (engine_at tr src dest st po i) (po ! i))"
  have "msgstr ?e \<noteq> [] \<longrightarrow> \<not> fuzzy ?e \<and> ''fuzzy'' \<notin> flags ?e"
    using assms(4) by (auto simp: process_entry_def split: prod.splits sum.splits)
  then show ?thesis
    using assms(3) by (simp add: translate_po_saved [OF assms(1,2)] for_entries_length for_entries_nth)
qed

theorem fresh_target_not_fuzzy_witness:
  "pofile (sample_disk [fuzzy_todo]) ''in.po'' = Inr [fuzzy_todo]
   \<and> ''out.po'' \<notin> read_only (sample_disk [fuzzy_todo])
   \<and> (0::nat) < length [fuzzy_todo]
   \<and> msgstr ([fuzzy_todo] ! 0) = []
   \<and> (\<exists>po'. files (disk (translate_po echo_engine 0 (sample_disk [fuzzy_todo])
                 ''in.po'' ''out.po'' ''en'' ''es'')) ''out.po'' = Some po'
          \<and> length po' = length [fuzzy_todo]
          \<and> msgstr (po' ! 0) \<noteq> [] \<and> \<not> fuzzy (po' ! 0) \<and> ''fuzzy'' \<notin> flags (po' ! 0))"
proof -
  have run: "files (disk (translate_po echo_engine 0 (sample_disk [fuzzy_todo])
                 ''in.po'' ''out.po'' ''en'' ''es'')) ''out.po''
        = Some [\<lparr>msgid = ''Bye {name}'', msgstr = ''Bye {name}'', flags = {}, fuzzy = False\<rparr>]"
    using translate_text_echo
    by (simp add: translate_po_def pofile_def save_def sample_disk_def process_entry_def
        strip_def fuzzy_todo_def)
  show ?thesis
    using fresh_target_not_fuzzy [of "sample_disk [fuzzy_todo]" "''in.po''" "[fuzzy_todo]"
       "''out.po''" 0 echo_engine 0 "''en''" "''es''"] run
    by (simp add: pofile_def sample_disk_def fuzzy_todo_def)
qed

end
